theory Spec2Isabelle
  imports Main
begin

section \<open>Go runtime notions shared by both coordinators\<close>

text \<open>
  The package \<open>gomap\<close> wraps a single-threaded \<open>Map\<close> in a coordinator: one worker
  goroutine (\<open>loopMap\<close>) owns the map, callers talk to it over channels. The model is an
  interleaving semantics: a world holds the coordinator struct, the heap cell of the
  wrapped map, the channels, the worker's program point and the program point of every
  caller goroutine; a schedule (a list of task ids) picks which goroutine moves next.
  A goroutine that is blocked makes no step.
\<close>

type_synonym chan_id = nat
type_synonym addr = nat

datatype tid = Worker | Caller nat

text \<open>A Go panic with its message. An unrecovered panic in any goroutine aborts the process.\<close>

datatype panic = Panic string

text \<open>
  A buffered Go channel: \<open>make(chan T, cap)\<close> with \<open>cap > 0\<close>. A send appends to the
  buffer when there is room, blocks (\<open>Inr None\<close>) when the buffer is full and panics on a
  closed channel. A receive takes the oldest buffered value also after \<open>close\<close>; on an
  empty buffer it blocks (\<open>None\<close>) while the channel is open and yields \<open>ok = false\<close>
  (\<open>Some (None, _)\<close>) once it is closed. Closing twice panics.
\<close>

record 'a chan =
  ch_cap :: nat
  ch_buf :: "'a list"
  ch_closed :: bool

definition make_chan :: "nat \<Rightarrow> 'a chan" where
  "make_chan n = \<lparr>ch_cap = n, ch_buf = [], ch_closed = False\<rparr>"

definition chan_send :: "'a \<Rightarrow> 'a chan \<Rightarrow> panic + 'a chan option" where
  "chan_send x c =
     (if ch_closed c then Inl (Panic ''send on closed channel'')
      else if length (ch_buf c) < ch_cap c then Inr (Some (c\<lparr>ch_buf := ch_buf c @ [x]\<rparr>))
      else Inr None)"

definition chan_recv :: "'a chan \<Rightarrow> ('a option \<times> 'a chan) option" where
  "chan_recv c =
     (case ch_buf c of
        x # xs \<Rightarrow> Some (Some x, c\<lparr>ch_buf := xs\<rparr>)
      | [] \<Rightarrow> (if ch_closed c then Some (None, c) else None))"

definition chan_close :: "'a chan \<Rightarrow> panic + 'a chan" where
  "chan_close c =
     (if ch_closed c then Inl (Panic ''close of closed channel'')
      else Inr (c\<lparr>ch_closed := True\<rparr>))"

text \<open>
  What the trace records: a channel made (by whom, its id, its capacity), a value sent
  on a channel, a request taken off a request channel by the worker (with the id of the
  reply channel it carries), a channel closed.
\<close>

datatype event =
    Made tid chan_id nat
  | Sent tid chan_id
  | Dispatched chan_id
  | Closed tid chan_id

text \<open>Program point of a caller goroutine inside one of the coordinator's methods.\<close>

datatype 'msg pc =
    Idle
  | Sending 'msg
  | Receiving chan_id

section \<open>The uniform-message coordinator: \<open>channelConcurrentMap\<close>\<close>

text \<open>
  The \<open>Map\<close> interface this coordinator wraps is declared in another file of the
  package; its methods are parameters of the model. Each method is a transformer of the
  map object's state \<open>'m\<close> (any method may mutate its receiver), and is assumed to
  return without panic. \<open>Map_String\<close> is what \<open>fmt.Sprint(ccm.storage)\<close> prints.
\<close>

record ('k, 'v, 'm) ccm_Map =
  Map_Clear :: "'m \<Rightarrow> 'm"
  Map_Contains :: "'k \<Rightarrow> 'm \<Rightarrow> bool \<times> 'm"
  Map_Delete :: "'k \<Rightarrow> 'm \<Rightarrow> ('v \<times> bool) \<times> 'm"
  Map_Get :: "'k \<Rightarrow> 'm \<Rightarrow> ('v \<times> bool) \<times> 'm"
  Map_Length :: "'m \<Rightarrow> int \<times> 'm"
  Map_Keys :: "'m \<Rightarrow> 'k list \<times> 'm"
  Map_Set :: "'k \<Rightarrow> 'v \<Rightarrow> 'm \<Rightarrow> ('v \<times> bool) \<times> 'm"
  Map_String :: "'m \<Rightarrow> string \<times> 'm"

text \<open>
  A value travelling on \<open>requestCh\<close>, a \<open>chan interface{}\<close>: a non-nil pointer to one of
  the eight request structs (each with its reply channel as last field), or a value of
  any other dynamic type, kept as the text \<open>%v\<close> prints for its \<open>reflect.TypeOf\<close>.
  The methods of the coordinator send values of the first kind only.
\<close>

datatype ('k, 'v) ccm_message =
    clearRequest chan_id
  | containsRequest 'k chan_id
  | deleteRequest 'k chan_id
  | getRequest 'k chan_id
  | lenRequest chan_id
  | keysRequest chan_id
  | setRequest 'k 'v chan_id
  | stringRequest chan_id
  | otherValue string

text \<open>What the worker writes on a reply channel.\<close>

datatype ('k, 'v) ccm_reply =
    done_true
  | found_bool bool
  | deleteResult 'v bool
  | getResult 'v bool
  | len_int int
  | keys_slice "'k list"
  | setResult 'v bool
  | str_string string

text \<open>What a method of the coordinator returns to its caller.\<close>

datatype ('k, 'v) ccm_result =
    R_unit
  | R_bool bool
  | R_pair 'v bool
  | R_int int
  | R_keys "'k list"
  | R_string string

datatype ('k, 'v) ccm_call =
    ccm_String
  | ccm_Clear
  | ccm_Contains 'k
  | ccm_Delete 'k
  | ccm_Get 'k
  | ccm_Length
  | ccm_Keys
  | ccm_Set 'k 'v
  | ccm_Close

text \<open>
  The request each method builds around its fresh reply channel (lines 303-359);
  \<open>Close\<close> builds none.
\<close>

fun ccm_request :: "('k, 'v) ccm_call \<Rightarrow> chan_id \<Rightarrow> ('k, 'v) ccm_message option" where
  "ccm_request ccm_String strCh = Some (stringRequest strCh)"
| "ccm_request ccm_Clear requestCh = Some (clearRequest requestCh)"
| "ccm_request (ccm_Contains key) foundCh = Some (containsRequest key foundCh)"
| "ccm_request (ccm_Delete key) resultCh = Some (deleteRequest key resultCh)"
| "ccm_request (ccm_Get key) valueCh = Some (getRequest key valueCh)"
| "ccm_request ccm_Length requestCh = Some (lenRequest requestCh)"
| "ccm_request ccm_Keys keysCh = Some (keysRequest keysCh)"
| "ccm_request (ccm_Set key val) lenCh = Some (setRequest key val lenCh)"
| "ccm_request ccm_Close c = None"

text \<open>What each method returns from the value it received on its reply channel.\<close>

fun ccm_return :: "('k, 'v) ccm_reply \<Rightarrow> ('k, 'v) ccm_result" where
  "ccm_return done_true = R_unit"
| "ccm_return (found_bool b) = R_bool b"
| "ccm_return (deleteResult prev found) = R_pair prev found"
| "ccm_return (getResult element found) = R_pair element found"
| "ccm_return (len_int n) = R_int n"
| "ccm_return (keys_slice ks) = R_keys ks"
| "ccm_return (setResult element found) = R_pair element found"
| "ccm_return (str_string s) = R_string s"

text \<open>The reply channel a request carries; none for a value that is no request.\<close>

fun ccm_reply_chan :: "('k, 'v) ccm_message \<Rightarrow> chan_id option" where
  "ccm_reply_chan (clearRequest c) = Some c"
| "ccm_reply_chan (containsRequest k c) = Some c"
| "ccm_reply_chan (deleteRequest k c) = Some c"
| "ccm_reply_chan (getRequest k c) = Some c"
| "ccm_reply_chan (lenRequest c) = Some c"
| "ccm_reply_chan (keysRequest c) = Some c"
| "ccm_reply_chan (setRequest k v c) = Some c"
| "ccm_reply_chan (stringRequest c) = Some c"
| "ccm_reply_chan (otherValue ty) = None"

text \<open>
  The type switch of \<open>loopMap\<close> (lines 369-400) up to the point where the worker blocks on
  the reply channel: the map method is run on the map object \<open>m\<close>, and the result is the
  reply channel, the value to send on it and the map object afterwards; the
  \<open>default\<close> branch panics.
\<close>

fun ccm_dispatch ::
  "('k, 'v, 'm) ccm_Map \<Rightarrow> ('k, 'v) ccm_message \<Rightarrow> 'm \<Rightarrow>
     panic + (chan_id \<times> ('k, 'v) ccm_reply \<times> 'm)" where
  "ccm_dispatch M (clearRequest doneCh) m = Inr (doneCh, done_true, Map_Clear M m)"
| "ccm_dispatch M (containsRequest key foundCh) m =
     (case Map_Contains M key m of (b, m') \<Rightarrow> Inr (foundCh, found_bool b, m'))"
| "ccm_dispatch M (deleteRequest key resultCh) m =
     (case Map_Delete M key m of ((prev, found), m') \<Rightarrow>
        Inr (resultCh, deleteResult prev found, m'))"
| "ccm_dispatch M (getRequest key valueCh) m =
     (case Map_Get M key m of ((element, found), m') \<Rightarrow>
        Inr (valueCh, getResult element found, m'))"
| "ccm_dispatch M (lenRequest lenCh) m =
     (case Map_Length M m of (n, m') \<Rightarrow> Inr (lenCh, len_int n, m'))"
| "ccm_dispatch M (keysRequest keysCh) m =
     (case Map_Keys M m of (ks, m') \<Rightarrow> Inr (keysCh, keys_slice ks, m'))"
| "ccm_dispatch M (setRequest key val lenCh) m =
     (case Map_Set M key val m of ((element, found), m') \<Rightarrow>
        Inr (lenCh, setResult element found, m'))"
| "ccm_dispatch M (stringRequest strCh) m =
     (case Map_String M m of (s, m') \<Rightarrow> Inr (strCh, str_string s, m'))"
| "ccm_dispatch M (otherValue ty) m = Inl (Panic (''Unrecognized req type '' @ ty))"

text \<open>The struct \<open>channelConcurrentMap\<close>: a reference to the map and the channel's id.\<close>

record channelConcurrentMap =
  ccm_storage :: addr
  ccm_requestCh :: chan_id

text \<open>Program point of the worker goroutine inside \<open>loopMap\<close>.\<close>

datatype ('msg, 'rep) wstate =
    WSelect
  | WServe 'msg
  | WReply chan_id 'rep
  | WReturned

record ('call, 'msg, 'res) caller =
  todo :: "'call list"
  pc :: "'msg pc"
  results :: "'res list"

record ('k, 'v, 'm) ccm_world =
  ccm :: channelConcurrentMap
  ccm_heap :: "addr \<Rightarrow> 'm"
  ccm_chan :: "('k, 'v) ccm_message chan"
  ccm_made :: "nat list"
  ccm_worker :: "(('k, 'v) ccm_message, ('k, 'v) ccm_reply) wstate"
  ccm_callers :: "(('k, 'v) ccm_call, ('k, 'v) ccm_message, ('k, 'v) ccm_result) caller list"
  ccm_abort :: "panic option"
  ccm_trace :: "event list"

text \<open>The caller blocked in \<open><-ch\<close> on reply channel \<open>ch\<close>, if any.\<close>

fun receiver_of :: "chan_id \<Rightarrow> ('call, 'msg, 'res) caller list \<Rightarrow> nat option" where
  "receiver_of ch [] = None"
| "receiver_of ch (c # cs) =
     (if pc c = Receiving ch then Some 0 else map_option Suc (receiver_of ch cs))"

text \<open>
  \<open>NewChannelConcurrentMap(storage)\<close> (lines 406-414): the struct with the given map
  reference and a fresh channel of capacity 1 (channel 0 of the world), and the worker
  started at the top of its loop. \<open>progs\<close> are the method calls each caller goroutine
  is going to issue, the heap holds the map objects.
\<close>

definition NewChannelConcurrentMap ::
  "addr \<Rightarrow> (addr \<Rightarrow> 'm) \<Rightarrow> ('k, 'v) ccm_call list list \<Rightarrow> ('k, 'v, 'm) ccm_world" where
  "NewChannelConcurrentMap st h progs =
     \<lparr>ccm = \<lparr>ccm_storage = st, ccm_requestCh = 0\<rparr>,
      ccm_heap = h,
      ccm_chan = make_chan 1,
      ccm_made = [1],
      ccm_worker = WSelect,
      ccm_callers = map (\<lambda>p. \<lparr>todo = p, pc = Idle, results = []\<rparr>) progs,
      ccm_abort = None,
      ccm_trace = []\<rparr>"

text \<open>
  One step of caller \<open>i\<close>. Between calls: \<open>Close()\<close> closes \<open>requestCh\<close> (line 300);
  any other method makes its reply channel with capacity 0 and builds the request.
  At the send (\<open>ccm.requestCh <- request\<close>) the caller panics on a closed channel,
  blocks on a full one, and otherwise goes on to \<open><-ch\<close>, where it waits for the worker.
\<close>

definition ccm_caller_step :: "nat \<Rightarrow> ('k, 'v, 'm) ccm_world \<Rightarrow> ('k, 'v, 'm) ccm_world option" where
  "ccm_caller_step i w =
     (if length (ccm_callers w) \<le> i then None
      else let c = ccm_callers w ! i in
        case pc c of
          Idle \<Rightarrow>
            (case todo c of
               [] \<Rightarrow> None
             | call # rest \<Rightarrow>
                 (case ccm_request call (length (ccm_made w)) of
                    None \<Rightarrow>
                      (case chan_close (ccm_chan w) of
                         Inl p \<Rightarrow> Some (w\<lparr>ccm_abort := Some p\<rparr>)
                       | Inr ch \<Rightarrow>
                           Some (w\<lparr>ccm_chan := ch,
                                   ccm_callers := (ccm_callers w)
                                     [i := c\<lparr>todo := rest, results := results c @ [R_unit]\<rparr>],
                                   ccm_trace := ccm_trace w @ [Closed (Caller i) (ccm_requestCh (ccm w))]\<rparr>))
                  | Some request \<Rightarrow>
                      Some (w\<lparr>ccm_made := ccm_made w @ [0],
                              ccm_callers := (ccm_callers w)[i := c\<lparr>pc := Sending request\<rparr>],
                              ccm_trace := ccm_trace w @
                                [Made (Caller i) (length (ccm_made w)) 0]\<rparr>)))
        | Sending request \<Rightarrow>
            (case chan_send request (ccm_chan w) of
               Inl p \<Rightarrow> Some (w\<lparr>ccm_abort := Some p\<rparr>)
             | Inr None \<Rightarrow> None
             | Inr (Some ch) \<Rightarrow>
                 (case ccm_reply_chan request of
                    None \<Rightarrow> None
                  | Some r \<Rightarrow>
                      Some (w\<lparr>ccm_chan := ch,
                              ccm_callers := (ccm_callers w)[i := c\<lparr>pc := Receiving r\<rparr>],
                              ccm_trace := ccm_trace w @ [Sent (Caller i) (ccm_requestCh (ccm w))]\<rparr>)))
        | Receiving r \<Rightarrow> None)"

text \<open>
  One step of the worker in \<open>loopMap\<close> (lines 361-403). At the receive: blocked on an
  open empty channel, \<open>return\<close> when \<open>ok\<close> is false, else on to the type switch with the
  request. In the type switch: the map method runs on the object \<open>storage\<close> refers to, or
  the \<open>default\<close> branch panics. At the reply send (capacity 0): the value is handed to the
  caller waiting on that channel, whose method returns; with no such caller the worker
  stays blocked.
\<close>

definition ccm_loopMap_step ::
  "('k, 'v, 'm) ccm_Map \<Rightarrow> ('k, 'v, 'm) ccm_world \<Rightarrow> ('k, 'v, 'm) ccm_world option" where
  "ccm_loopMap_step M w =
     (case ccm_worker w of
        WSelect \<Rightarrow>
          (case chan_recv (ccm_chan w) of
             None \<Rightarrow> None
           | Some (None, ch) \<Rightarrow> Some (w\<lparr>ccm_worker := WReturned\<rparr>)
           | Some (Some request, ch) \<Rightarrow>
               Some (w\<lparr>ccm_chan := ch, ccm_worker := WServe request,
                       ccm_trace := ccm_trace w @
                         (case ccm_reply_chan request of None \<Rightarrow> [] | Some r \<Rightarrow> [Dispatched r])\<rparr>))
      | WServe request \<Rightarrow>
          (case ccm_dispatch M request (ccm_heap w (ccm_storage (ccm w))) of
             Inl p \<Rightarrow> Some (w\<lparr>ccm_abort := Some p\<rparr>)
           | Inr (r, v, m') \<Rightarrow>
               Some (w\<lparr>ccm_heap := (ccm_heap w)(ccm_storage (ccm w) := m'),
                       ccm_worker := WReply r v\<rparr>))
      | WReply r v \<Rightarrow>
          (case receiver_of r (ccm_callers w) of
             None \<Rightarrow> None
           | Some j \<Rightarrow>
               let c = ccm_callers w ! j in
               (case todo c of
                  [] \<Rightarrow> None
                | call # rest \<Rightarrow>
                    Some (w\<lparr>ccm_worker := WSelect,
                            ccm_callers := (ccm_callers w)
                              [j := c\<lparr>todo := rest, pc := Idle,
                                      results := results c @ [ccm_return v]\<rparr>],
                            ccm_trace := ccm_trace w @ [Sent Worker r]\<rparr>)))
      | WReturned \<Rightarrow> None)"

text \<open>A scheduled step: nothing moves once a panic has aborted the process.\<close>

definition ccm_step ::
  "('k, 'v, 'm) ccm_Map \<Rightarrow> tid \<Rightarrow> ('k, 'v, 'm) ccm_world \<Rightarrow> ('k, 'v, 'm) ccm_world option" where
  "ccm_step M t w =
     (if ccm_abort w \<noteq> None then None
      else case t of Worker \<Rightarrow> ccm_loopMap_step M w | Caller i \<Rightarrow> ccm_caller_step i w)"

text \<open>Running a schedule: a task that cannot move when picked is skipped.\<close>

fun ccm_run ::
  "('k, 'v, 'm) ccm_Map \<Rightarrow> tid list \<Rightarrow> ('k, 'v, 'm) ccm_world \<Rightarrow> ('k, 'v, 'm) ccm_world" where
  "ccm_run M [] w = w"
| "ccm_run M (t # ts) w =
     ccm_run M ts (case ccm_step M t w of None \<Rightarrow> w | Some w' \<Rightarrow> w')"

text \<open>The request types the type switch of \<open>loopMap\<close> names.\<close>

fun ccm_recognized :: "('k, 'v) ccm_message \<Rightarrow> bool" where
  "ccm_recognized (clearRequest c) = True"
| "ccm_recognized (containsRequest k c) = True"
| "ccm_recognized (deleteRequest k c) = True"
| "ccm_recognized (getRequest k c) = True"
| "ccm_recognized (lenRequest c) = True"
| "ccm_recognized (keysRequest c) = True"
| "ccm_recognized (setRequest k v c) = True"
| "ccm_recognized (stringRequest c) = True"
| "ccm_recognized (otherValue ty) = False"

section \<open>The request-typed coordinator: \<open>concurrentMap\<close>\<close>

text \<open>
  The \<open>Map\<close> interface of this variant (declared in another file of the package), again
  as parameters: \<open>Delete\<close> and \<open>Set\<close> return an \<open>int\<close>, and \<open>UnderlyingStorage\<close> returns the
  raw \<open>map[Key]Value\<close>, a value of type \<open>'s\<close>.
\<close>

record ('k, 'v, 'm, 's) KV_Map =
  KV_UnderlyingStorage :: "'m \<Rightarrow> 's \<times> 'm"
  KV_Clear :: "'m \<Rightarrow> 'm"
  KV_Contains :: "'k \<Rightarrow> 'm \<Rightarrow> bool \<times> 'm"
  KV_Delete :: "'k \<Rightarrow> 'm \<Rightarrow> int \<times> 'm"
  KV_Length :: "'m \<Rightarrow> int \<times> 'm"
  KV_Get :: "'k \<Rightarrow> 'm \<Rightarrow> ('v \<times> bool) \<times> 'm"
  KV_Set :: "'k \<Rightarrow> 'v \<Rightarrow> 'm \<Rightarrow> int \<times> 'm"

text \<open>
  The struct \<open>concurrentMap\<close> (lines 45-55): the map reference and one channel per kind
  of request.
\<close>

record concurrentMap =
  cm_storage :: addr
  accessMapCh :: chan_id
  accessStorageCh :: chan_id
  clearCh :: chan_id
  containsCh :: chan_id
  deleteCh :: chan_id
  lenCh :: chan_id
  getCh :: chan_id
  setCh :: chan_id

text \<open>
  A value in transit to the worker, named by the channel it travels on: a bare reply
  channel on \<open>accessMapCh\<close>, \<open>accessStorageCh\<close>, \<open>clearCh\<close> and \<open>lenCh\<close>, a request struct
  (its reply channel last) on the other four.
\<close>

datatype ('k, 'v) cm_message =
    on_accessMapCh chan_id
  | on_accessStorageCh chan_id
  | on_clearCh chan_id
  | on_containsCh 'k chan_id
  | on_deleteCh 'k chan_id
  | on_lenCh chan_id
  | on_getCh 'k chan_id
  | on_setCh 'k 'v chan_id

datatype ('v, 's) cm_reply =
    send_Map addr
  | send_storage 's
  | send_true
  | send_bool bool
  | send_int int
  | cm_getResult 'v bool

datatype ('v, 's) cm_result =
    Ret_Map addr
  | Ret_storage 's
  | Ret_unit
  | Ret_bool bool
  | Ret_int int
  | Ret_pair 'v bool

text \<open>
  The synchronous methods of \<open>concurrentMap\<close> (lines 57-164). Each \<open>XAsync\<close> method
  starts a goroutine that calls \<open>X\<close> and passes the result to the callback: in the model,
  one more caller.
\<close>

datatype ('k, 'v) cm_call =
    cm_UnderlyingMap
  | cm_UnderlyingStorage
  | cm_Clear
  | cm_Contains 'k
  | cm_Delete 'k
  | cm_Get 'k
  | cm_IsEmpty
  | cm_Length
  | cm_Set 'k 'v

text \<open>
  What each method sends, around its fresh reply channel; \<open>IsEmpty\<close> calls \<open>Length\<close>
  (line 137).
\<close>

fun cm_request :: "('k, 'v) cm_call \<Rightarrow> chan_id \<Rightarrow> ('k, 'v) cm_message" where
  "cm_request cm_UnderlyingMap accessCh = on_accessMapCh accessCh"
| "cm_request cm_UnderlyingStorage accessCh = on_accessStorageCh accessCh"
| "cm_request cm_Clear requestCh = on_clearCh requestCh"
| "cm_request (cm_Contains key) foundCh = on_containsCh key foundCh"
| "cm_request (cm_Delete key) lc = on_deleteCh key lc"
| "cm_request (cm_Get key) valueCh = on_getCh key valueCh"
| "cm_request cm_IsEmpty requestCh = on_lenCh requestCh"
| "cm_request cm_Length requestCh = on_lenCh requestCh"
| "cm_request (cm_Set key val) lc = on_setCh key val lc"

text \<open>The channel of the struct a value is sent on, and the reply channel it carries.\<close>

fun cm_chan_of :: "concurrentMap \<Rightarrow> ('k, 'v) cm_message \<Rightarrow> chan_id" where
  "cm_chan_of c (on_accessMapCh r) = accessMapCh c"
| "cm_chan_of c (on_accessStorageCh r) = accessStorageCh c"
| "cm_chan_of c (on_clearCh r) = clearCh c"
| "cm_chan_of c (on_containsCh k r) = containsCh c"
| "cm_chan_of c (on_deleteCh k r) = deleteCh c"
| "cm_chan_of c (on_lenCh r) = lenCh c"
| "cm_chan_of c (on_getCh k r) = getCh c"
| "cm_chan_of c (on_setCh k v r) = setCh c"

fun cm_reply_chan :: "('k, 'v) cm_message \<Rightarrow> chan_id" where
  "cm_reply_chan (on_accessMapCh r) = r"
| "cm_reply_chan (on_accessStorageCh r) = r"
| "cm_reply_chan (on_clearCh r) = r"
| "cm_reply_chan (on_containsCh k r) = r"
| "cm_reply_chan (on_deleteCh k r) = r"
| "cm_reply_chan (on_lenCh r) = r"
| "cm_reply_chan (on_getCh k r) = r"
| "cm_reply_chan (on_setCh k v r) = r"

text \<open>
  What each method returns from the value received on its reply channel: \<open>IsEmpty\<close>
  compares the length with 0, \<open>Get\<close> unpacks the \<open>getResult\<close>, \<open>Clear\<close> drops the value.
\<close>

fun cm_return :: "('k, 'v) cm_call \<Rightarrow> ('v, 's) cm_reply \<Rightarrow> ('v, 's) cm_result" where
  "cm_return cm_IsEmpty (send_int n) = Ret_bool (n = 0)"
| "cm_return call (send_Map a) = Ret_Map a"
| "cm_return call (send_storage s) = Ret_storage s"
| "cm_return call send_true = Ret_unit"
| "cm_return call (send_bool b) = Ret_bool b"
| "cm_return call (send_int n) = Ret_int n"
| "cm_return call (cm_getResult element found) = Ret_pair element found"

text \<open>
  The body of the \<open>select\<close> case that received the value (lines 176-200), up to the point
  where the worker blocks on the reply channel: the reply channel, the value to send and
  the map object afterwards. The \<open>accessMapCh\<close> case sends the reference held in the
  struct and calls no method of the map.
\<close>

fun cm_select_case ::
  "('k, 'v, 'm, 's) KV_Map \<Rightarrow> concurrentMap \<Rightarrow> ('k, 'v) cm_message \<Rightarrow> 'm \<Rightarrow>
     chan_id \<times> ('v, 's) cm_reply \<times> 'm" where
  "cm_select_case M c (on_accessMapCh ar) m = (ar, send_Map (cm_storage c), m)"
| "cm_select_case M c (on_accessStorageCh ar) m =
     (case KV_UnderlyingStorage M m of (s, m') \<Rightarrow> (ar, send_storage s, m'))"
| "cm_select_case M c (on_clearCh cr) m = (cr, send_true, KV_Clear M m)"
| "cm_select_case M c (on_containsCh key foundCh) m =
     (case KV_Contains M key m of (b, m') \<Rightarrow> (foundCh, send_bool b, m'))"
| "cm_select_case M c (on_deleteCh key lc) m =
     (case KV_Delete M key m of (n, m') \<Rightarrow> (lc, send_int n, m'))"
| "cm_select_case M c (on_lenCh lr) m =
     (case KV_Length M m of (n, m') \<Rightarrow> (lr, send_int n, m'))"
| "cm_select_case M c (on_getCh key valueCh) m =
     (case KV_Get M key m of ((element, found), m') \<Rightarrow>
        (valueCh, cm_getResult element found, m'))"
| "cm_select_case M c (on_setCh key val lc) m =
     (case KV_Set M key val m of (n, m') \<Rightarrow> (lc, send_int n, m'))"

record ('k, 'v, 'm, 's) cm_world =
  cm :: concurrentMap
  cm_heap :: "addr \<Rightarrow> 'm"
  cm_made :: "nat list"
  cm_worker :: "(('k, 'v) cm_message, ('v, 's) cm_reply) wstate"
  cm_callers :: "(('k, 'v) cm_call, ('k, 'v) cm_message, ('v, 's) cm_result) caller list"
  cm_trace :: "event list"

text \<open>
  \<open>NewConcurrentMap(storage)\<close> (lines 206-221): the struct with the given map reference
  and eight fresh channels of capacity 0 (channels 0 to 7 of the world), and the worker
  started at its \<open>select\<close>.
\<close>

definition NewConcurrentMap ::
  "addr \<Rightarrow> (addr \<Rightarrow> 'm) \<Rightarrow> ('k, 'v) cm_call list list \<Rightarrow> ('k, 'v, 'm, 's) cm_world" where
  "NewConcurrentMap st h progs =
     \<lparr>cm = \<lparr>cm_storage = st, accessMapCh = 0, accessStorageCh = 1, clearCh = 2,
             containsCh = 3, deleteCh = 4, lenCh = 5, getCh = 6, setCh = 7\<rparr>,
      cm_heap = h,
      cm_made = [0, 0, 0, 0, 0, 0, 0, 0],
      cm_worker = WSelect,
      cm_callers = map (\<lambda>p. \<lparr>todo = p, pc = Idle, results = []\<rparr>) progs,
      cm_trace = []\<rparr>"

text \<open>
  One step of caller \<open>i\<close>. Between calls it makes the reply channel (capacity 0) and
  builds the value to send. The send on the unbuffered request channel completes only
  when the worker is at its \<open>select\<close>, which then holds the value; the caller goes on to
  \<open><-ch\<close> and waits there for the worker.
\<close>

definition cm_caller_step ::
  "nat \<Rightarrow> ('k, 'v, 'm, 's) cm_world \<Rightarrow> ('k, 'v, 'm, 's) cm_world option" where
  "cm_caller_step i w =
     (if length (cm_callers w) \<le> i then None
      else let c = cm_callers w ! i in
        case pc c of
          Idle \<Rightarrow>
            (case todo c of
               [] \<Rightarrow> None
             | call # rest \<Rightarrow>
                 Some (w\<lparr>cm_made := cm_made w @ [0],
                         cm_callers := (cm_callers w)
                           [i := c\<lparr>pc := Sending (cm_request call (length (cm_made w)))\<rparr>],
                         cm_trace := cm_trace w @ [Made (Caller i) (length (cm_made w)) 0]\<rparr>))
        | Sending msg \<Rightarrow>
            (case cm_worker w of
               WSelect \<Rightarrow>
                 Some (w\<lparr>cm_worker := WServe msg,
                         cm_callers := (cm_callers w)[i := c\<lparr>pc := Receiving (cm_reply_chan msg)\<rparr>],
                         cm_trace := cm_trace w @
                           [Sent (Caller i) (cm_chan_of (cm w) msg), Dispatched (cm_reply_chan msg)]\<rparr>)
             | _ \<Rightarrow> None)
        | Receiving r \<Rightarrow> None)"

text \<open>
  One step of the worker in \<open>loopMap\<close> (lines 173-203). At the \<open>select\<close> it waits for a
  sender. Holding a value, it runs the case body on the object \<open>storage\<close> refers to. At the
  reply send (capacity 0) the value is handed to the caller waiting on that channel, whose
  method returns, and the loop goes round; with no such caller the worker stays blocked.
  The loop has no exit.
\<close>

definition cm_loopMap_step ::
  "('k, 'v, 'm, 's) KV_Map \<Rightarrow> ('k, 'v, 'm, 's) cm_world \<Rightarrow> ('k, 'v, 'm, 's) cm_world option" where
  "cm_loopMap_step M w =
     (case cm_worker w of
        WSelect \<Rightarrow> None
      | WServe msg \<Rightarrow>
          (case cm_select_case M (cm w) msg (cm_heap w (cm_storage (cm w))) of
             (r, v, m') \<Rightarrow>
               Some (w\<lparr>cm_heap := (cm_heap w)(cm_storage (cm w) := m'),
                       cm_worker := WReply r v\<rparr>))
      | WReply r v \<Rightarrow>
          (case receiver_of r (cm_callers w) of
             None \<Rightarrow> None
           | Some j \<Rightarrow>
               let c = cm_callers w ! j in
               (case todo c of
                  [] \<Rightarrow> None
                | call # rest \<Rightarrow>
                    Some (w\<lparr>cm_worker := WSelect,
                            cm_callers := (cm_callers w)
                              [j := c\<lparr>todo := rest, pc := Idle,
                                      results := results c @ [cm_return call v]\<rparr>],
                            cm_trace := cm_trace w @ [Sent Worker r]\<rparr>)))
      | WReturned \<Rightarrow> None)"

definition cm_step ::
  "('k, 'v, 'm, 's) KV_Map \<Rightarrow> tid \<Rightarrow> ('k, 'v, 'm, 's) cm_world \<Rightarrow>
     ('k, 'v, 'm, 's) cm_world option" where
  "cm_step M t w = (case t of Worker \<Rightarrow> cm_loopMap_step M w | Caller i \<Rightarrow> cm_caller_step i w)"

fun cm_run ::
  "('k, 'v, 'm, 's) KV_Map \<Rightarrow> tid list \<Rightarrow> ('k, 'v, 'm, 's) cm_world \<Rightarrow>
     ('k, 'v, 'm, 's) cm_world" where
  "cm_run M [] w = w"
| "cm_run M (t # ts) w =
     cm_run M ts (case cm_step M t w of None \<Rightarrow> w | Some w' \<Rightarrow> w')"

section \<open>The single-threaded reference\<close>

text \<open>
  The same method calls made by one thread directly on the map object, with no
  coordinator: what each call returns and the map object afterwards.
\<close>

fun ccm_apply ::
  "('k, 'v, 'm) ccm_Map \<Rightarrow> ('k, 'v) ccm_call \<Rightarrow> 'm \<Rightarrow> ('k, 'v) ccm_result \<times> 'm" where
  "ccm_apply M ccm_String m = (case Map_String M m of (s, m') \<Rightarrow> (R_string s, m'))"
| "ccm_apply M ccm_Clear m = (R_unit, Map_Clear M m)"
| "ccm_apply M (ccm_Contains key) m = (case Map_Contains M key m of (b, m') \<Rightarrow> (R_bool b, m'))"
| "ccm_apply M (ccm_Delete key) m =
     (case Map_Delete M key m of ((prev, found), m') \<Rightarrow> (R_pair prev found, m'))"
| "ccm_apply M (ccm_Get key) m =
     (case Map_Get M key m of ((element, found), m') \<Rightarrow> (R_pair element found, m'))"
| "ccm_apply M ccm_Length m = (case Map_Length M m of (n, m') \<Rightarrow> (R_int n, m'))"
| "ccm_apply M ccm_Keys m = (case Map_Keys M m of (ks, m') \<Rightarrow> (R_keys ks, m'))"
| "ccm_apply M (ccm_Set key val) m =
     (case Map_Set M key val m of ((element, found), m') \<Rightarrow> (R_pair element found, m'))"
| "ccm_apply M ccm_Close m = (R_unit, m)"

fun ccm_direct ::
  "('k, 'v, 'm) ccm_Map \<Rightarrow> ('k, 'v) ccm_call list \<Rightarrow> 'm \<Rightarrow> ('k, 'v) ccm_result list \<times> 'm" where
  "ccm_direct M [] m = ([], m)"
| "ccm_direct M (c # cs) m =
     (case ccm_apply M c m of (r, m') \<Rightarrow>
        (case ccm_direct M cs m' of (rs, m'') \<Rightarrow> (r # rs, m'')))"

fun cm_apply ::
  "('k, 'v, 'm, 's) KV_Map \<Rightarrow> addr \<Rightarrow> ('k, 'v) cm_call \<Rightarrow> 'm \<Rightarrow> ('v, 's) cm_result \<times> 'm" where
  "cm_apply M a cm_UnderlyingMap m = (Ret_Map a, m)"
| "cm_apply M a cm_UnderlyingStorage m =
     (case KV_UnderlyingStorage M m of (s, m') \<Rightarrow> (Ret_storage s, m'))"
| "cm_apply M a cm_Clear m = (Ret_unit, KV_Clear M m)"
| "cm_apply M a (cm_Contains key) m = (case KV_Contains M key m of (b, m') \<Rightarrow> (Ret_bool b, m'))"
| "cm_apply M a (cm_Delete key) m = (case KV_Delete M key m of (n, m') \<Rightarrow> (Ret_int n, m'))"
| "cm_apply M a (cm_Get key) m =
     (case KV_Get M key m of ((element, found), m') \<Rightarrow> (Ret_pair element found, m'))"
| "cm_apply M a cm_IsEmpty m = (case KV_Length M m of (n, m') \<Rightarrow> (Ret_bool (n = 0), m'))"
| "cm_apply M a cm_Length m = (case KV_Length M m of (n, m') \<Rightarrow> (Ret_int n, m'))"
| "cm_apply M a (cm_Set key val) m = (case KV_Set M key val m of (n, m') \<Rightarrow> (Ret_int n, m'))"

fun cm_direct ::
  "('k, 'v, 'm, 's) KV_Map \<Rightarrow> addr \<Rightarrow> ('k, 'v) cm_call list \<Rightarrow> 'm \<Rightarrow>
     ('v, 's) cm_result list \<times> 'm" where
  "cm_direct M a [] m = ([], m)"
| "cm_direct M a (c # cs) m =
     (case cm_apply M a c m of (r, m') \<Rightarrow>
        (case cm_direct M a cs m' of (rs, m'') \<Rightarrow> (r # rs, m'')))"

section \<open>A concrete map for running the model\<close>

text \<open>
  Modelled from the spec: the implementations of the \<open>Map\<close> interface (the basic map
  that \<open>NewDefaultBasicMap\<close> returns) are missing from the source files. The spec
  describes the collaborator as a container of key/value entries with unique keys whose
  \<open>Get\<close> and \<open>Delete\<close> signal a missing key by the found flag; in the request-typed
  variant \<open>Set\<close> and \<open>Delete\<close> return the new length, in the uniform variant the previous
  element and the found flag. Entries are kept in an association list; \<open>zero\<close> is the
  zero value of the value type. These two maps serve to run the model on concrete
  inputs; every property below is proved for an arbitrary map.
\<close>

definition basic_ccm_Map ::
  "'v \<Rightarrow> (('k \<times> 'v) list \<Rightarrow> string) \<Rightarrow> ('k, 'v, ('k \<times> 'v) list) ccm_Map" where
  "basic_ccm_Map zero render =
     \<lparr>Map_Clear = (\<lambda>m. []),
      Map_Contains = (\<lambda>k m. (map_of m k \<noteq> None, m)),
      Map_Delete = (\<lambda>k m. case map_of m k of
                       None \<Rightarrow> ((zero, False), m)
                     | Some v \<Rightarrow> ((v, True), filter (\<lambda>e. fst e \<noteq> k) m)),
      Map_Get = (\<lambda>k m. case map_of m k of
                       None \<Rightarrow> ((zero, False), m)
                     | Some v \<Rightarrow> ((v, True), m)),
      Map_Length = (\<lambda>m. (int (length m), m)),
      Map_Keys = (\<lambda>m. (map fst m, m)),
      Map_Set = (\<lambda>k v m. case map_of m k of
                       None \<Rightarrow> ((zero, False), m @ [(k, v)])
                     | Some old \<Rightarrow> ((old, True), map (\<lambda>e. if fst e = k then (k, v) else e) m)),
      Map_String = (\<lambda>m. (render m, m))\<rparr>"

definition basic_KV_Map :: "'v \<Rightarrow> ('k, 'v, ('k \<times> 'v) list, ('k \<times> 'v) list) KV_Map" where
  "basic_KV_Map zero =
     \<lparr>KV_UnderlyingStorage = (\<lambda>m. (m, m)),
      KV_Clear = (\<lambda>m. []),
      KV_Contains = (\<lambda>k m. (map_of m k \<noteq> None, m)),
      KV_Delete = (\<lambda>k m. let m' = filter (\<lambda>e. fst e \<noteq> k) m in (int (length m'), m')),
      KV_Length = (\<lambda>m. (int (length m), m)),
      KV_Get = (\<lambda>k m. case map_of m k of
                       None \<Rightarrow> ((zero, False), m)
                     | Some v \<Rightarrow> ((v, True), m)),
      KV_Set = (\<lambda>k v m.
                  let m' = (case map_of m k of
                              None \<Rightarrow> m @ [(k, v)]
                            | Some old \<Rightarrow> map (\<lambda>e. if fst e = k then (k, v) else e) m)
                  in (int (length m'), m'))\<rparr>"

definition demo_ccm_Map :: "(string, int, (string \<times> int) list) ccm_Map" where
  "demo_ccm_Map = basic_ccm_Map 0 (\<lambda>m. ''map'')"

definition demo_KV_Map :: "(string, int, (string \<times> int) list, (string \<times> int) list) KV_Map" where
  "demo_KV_Map = basic_KV_Map 0"

section \<open>Reading the trace\<close>

fun is_Dispatched :: "event \<Rightarrow> bool" where
  "is_Dispatched (Dispatched r) = True"
| "is_Dispatched e = False"

section \<open>Concrete worlds\<close>

text \<open>Two callers of a uniform-message coordinator: one closes it, one reads a key.\<close>

definition demo_close_world :: "(string, int, (string \<times> int) list) ccm_world" where
  "demo_close_world = NewChannelConcurrentMap 0 (\<lambda>a. []) [[ccm_Close], [ccm_Get ''a'']]"

text \<open>One caller deleting key \<open>a\<close> from a map holding \<open>a\<close> and \<open>b\<close>, for each coordinator.\<close>

definition demo_delete_cm ::
  "(string, int, (string \<times> int) list, (string \<times> int) list) cm_world" where
  "demo_delete_cm = NewConcurrentMap 0 (\<lambda>a. [(''a'', 1), (''b'', 2)]) [[cm_Delete ''a'']]"

definition demo_delete_ccm :: "(string, int, (string \<times> int) list) ccm_world" where
  "demo_delete_ccm =
     NewChannelConcurrentMap 0 (\<lambda>a. [(''a'', 1), (''b'', 2)]) [[ccm_Delete ''a'']]"

section \<open>Invariants of a coordinator with a single caller\<close>

text \<open>
  The results a caller has got so far, followed by what the reference would return for
  the calls still to do on the map as it is now, are what the reference returns for the
  whole program on the initial map.
\<close>

definition ccm_ahead ::
  "('k, 'v, 'm) ccm_Map \<Rightarrow> ('k, 'v) ccm_call list \<Rightarrow> 'm \<Rightarrow> ('k, 'v) ccm_result list \<Rightarrow>
     ('k, 'v) ccm_call list \<Rightarrow> 'm \<Rightarrow> bool" where
  "ccm_ahead M P m0 rs td m \<longleftrightarrow>
     ccm_direct M P m0 = (rs @ fst (ccm_direct M td m), snd (ccm_direct M td m))"

definition ccm_single_inv ::
  "('k, 'v, 'm) ccm_Map \<Rightarrow> ('k, 'v) ccm_call list \<Rightarrow> 'm \<Rightarrow> ('k, 'v, 'm) ccm_world \<Rightarrow> bool" where
  "ccm_single_inv M P m0 w \<longleftrightarrow>
     ccm_abort w = None \<and> \<not> ch_closed (ccm_chan w) \<and> ch_cap (ccm_chan w) = 1 \<and>
     (\<exists>c. ccm_callers w = [c] \<and> ccm_Close \<notin> set (todo c) \<and>
        (case pc c of
           Idle \<Rightarrow>
             ch_buf (ccm_chan w) = [] \<and> ccm_worker w = WSelect \<and>
             ccm_ahead M P m0 (results c) (todo c) (ccm_heap w (ccm_storage (ccm w)))
         | Sending request \<Rightarrow>
             ch_buf (ccm_chan w) = [] \<and> ccm_worker w = WSelect \<and>
             ccm_ahead M P m0 (results c) (todo c) (ccm_heap w (ccm_storage (ccm w))) \<and>
             (\<exists>call rest r. todo c = call # rest \<and> ccm_request call r = Some request)
         | Receiving r \<Rightarrow>
             (\<exists>call rest. todo c = call # rest \<and>
                (case ccm_worker w of
                   WSelect \<Rightarrow>
                     (\<exists>request. ch_buf (ccm_chan w) = [request] \<and>
                        ccm_request call r = Some request) \<and>
                     ccm_ahead M P m0 (results c) (todo c) (ccm_heap w (ccm_storage (ccm w)))
                 | WServe request \<Rightarrow>
                     ch_buf (ccm_chan w) = [] \<and> ccm_request call r = Some request \<and>
                     ccm_ahead M P m0 (results c) (todo c) (ccm_heap w (ccm_storage (ccm w)))
                 | WReply r' v \<Rightarrow>
                     ch_buf (ccm_chan w) = [] \<and> r' = r \<and>
                     ccm_ahead M P m0 (results c @ [ccm_return v]) rest
                       (ccm_heap w (ccm_storage (ccm w)))
                 | WReturned \<Rightarrow> False))))"

definition cm_ahead ::
  "('k, 'v, 'm, 's) KV_Map \<Rightarrow> addr \<Rightarrow> ('k, 'v) cm_call list \<Rightarrow> 'm \<Rightarrow> ('v, 's) cm_result list \<Rightarrow>
     ('k, 'v) cm_call list \<Rightarrow> 'm \<Rightarrow> bool" where
  "cm_ahead M a P m0 rs td m \<longleftrightarrow>
     cm_direct M a P m0 = (rs @ fst (cm_direct M a td m), snd (cm_direct M a td m))"

definition cm_single_inv ::
  "('k, 'v, 'm, 's) KV_Map \<Rightarrow> addr \<Rightarrow> ('k, 'v) cm_call list \<Rightarrow> 'm \<Rightarrow>
     ('k, 'v, 'm, 's) cm_world \<Rightarrow> bool" where
  "cm_single_inv M a P m0 w \<longleftrightarrow>
     cm_storage (cm w) = a \<and>
     (\<exists>c. cm_callers w = [c] \<and>
        (case pc c of
           Idle \<Rightarrow>
             cm_worker w = WSelect \<and>
             cm_ahead M a P m0 (results c) (todo c) (cm_heap w a)
         | Sending msg \<Rightarrow>
             cm_worker w = WSelect \<and>
             cm_ahead M a P m0 (results c) (todo c) (cm_heap w a) \<and>
             (\<exists>call rest r. todo c = call # rest \<and> msg = cm_request call r)
         | Receiving r \<Rightarrow>
             (\<exists>call rest. todo c = call # rest \<and>
                (case cm_worker w of
                   WSelect \<Rightarrow> False
                 | WServe msg \<Rightarrow>
                     msg = cm_request call r \<and>
                     cm_ahead M a P m0 (results c) (todo c) (cm_heap w a)
                 | WReply r' v \<Rightarrow>
                     r' = r \<and>
                     cm_ahead M a P m0 (results c @ [cm_return call v]) rest (cm_heap w a)
                 | WReturned \<Rightarrow> False))))"

text \<open>The example sequence of the spec, for each coordinator.\<close>

definition demo_ccm_prog :: "(string, int) ccm_call list" where
  "demo_ccm_prog =
     [ccm_Set ''a'' 1, ccm_Set ''b'' 2, ccm_Get ''a'', ccm_Delete ''a'', ccm_Get ''a'',
      ccm_Length]"

definition demo_cm_prog :: "(string, int) cm_call list" where
  "demo_cm_prog =
     [cm_Set ''a'' 1, cm_Set ''b'' 2, cm_Get ''a'', cm_Delete ''a'', cm_Get ''a'', cm_Length]"

section \<open>Invariants of the request-typed coordinator with any number of callers\<close>

text \<open>
  A caller is consistent with its program \<open>P\<close> and with the worker's program point:
  the calls still to do are what is left of \<open>P\<close> after the calls that returned; each
  result is what the reference returns for its call on some state of the map; a value
  being sent was built from the call at the head; and while the caller waits on its reply
  channel the worker holds the request built from that call, or the reply to it.
\<close>

definition cm_caller_ok ::
  "('k, 'v, 'm, 's) KV_Map \<Rightarrow> addr \<Rightarrow> (('k, 'v) cm_message, ('v, 's) cm_reply) wstate \<Rightarrow>
     ('k, 'v) cm_call list \<Rightarrow>
     (('k, 'v) cm_call, ('k, 'v) cm_message, ('v, 's) cm_result) caller \<Rightarrow> bool" where
  "cm_caller_ok M st wk P c \<longleftrightarrow>
     drop (length (results c)) P = todo c \<and> length (results c) \<le> length P \<and>
     (\<forall>k < length (results c). \<exists>m. results c ! k = fst (cm_apply M st (P ! k) m)) \<and>
     (case pc c of
        Idle \<Rightarrow> True
      | Sending msg \<Rightarrow> (\<exists>call rest r. todo c = call # rest \<and> msg = cm_request call r)
      | Receiving r \<Rightarrow>
          (\<exists>call rest. todo c = call # rest \<and>
             (case wk of
                WSelect \<Rightarrow> False
              | WServe msg \<Rightarrow> msg = cm_request call r
              | WReply r' v \<Rightarrow> r' = r \<and> (\<exists>m. cm_return call v = fst (cm_apply M st call m))
              | WReturned \<Rightarrow> False)))"

definition cm_hist_inv ::
  "('k, 'v, 'm, 's) KV_Map \<Rightarrow> addr \<Rightarrow> ('k, 'v) cm_call list list \<Rightarrow>
     ('k, 'v, 'm, 's) cm_world \<Rightarrow> bool" where
  "cm_hist_inv M st progs w \<longleftrightarrow>
     cm_storage (cm w) = st \<and> length (cm_callers w) = length progs \<and>
     (\<forall>i < length progs. cm_caller_ok M st (cm_worker w) (progs ! i) (cm_callers w ! i)) \<and>
     (\<forall>i j r r'. i < length progs \<and> j < length progs \<and>
        pc (cm_callers w ! i) = Receiving r \<and> pc (cm_callers w ! j) = Receiving r' \<longrightarrow> i = j)"

text \<open>Two callers of a request-typed coordinator wrapping the map at address 7.\<close>

definition demo_access_cm ::
  "(string, int, (string \<times> int) list, (string \<times> int) list) cm_world" where
  "demo_access_cm =
     NewConcurrentMap 7 (\<lambda>a. []) [[cm_Set ''a'' 1, cm_UnderlyingMap], [cm_UnderlyingMap]]"

section \<open>Counting channels: requests pending, replies sent\<close>

text \<open>
  For a reply channel \<open>r\<close>: the callers waiting on it, the callers about to send a request
  that carries it, whether the worker holds a request (or the reply) for it, and the
  buffered requests that carry it. \<open>rc\<close> gives the reply channel a message carries.
\<close>

definition receivers :: "chan_id \<Rightarrow> 'msg pc list \<Rightarrow> nat" where
  "receivers r ps = length (filter (\<lambda>p. p = Receiving r) ps)"

fun sending_on :: "('msg \<Rightarrow> chan_id option) \<Rightarrow> chan_id \<Rightarrow> 'msg pc \<Rightarrow> bool" where
  "sending_on rc r (Sending msg) = (rc msg = Some r)"
| "sending_on rc r Idle = False"
| "sending_on rc r (Receiving r') = False"

definition senders :: "('msg \<Rightarrow> chan_id option) \<Rightarrow> chan_id \<Rightarrow> 'msg pc list \<Rightarrow> nat" where
  "senders rc r ps = length (filter (sending_on rc r) ps)"

fun in_service :: "('msg \<Rightarrow> chan_id option) \<Rightarrow> chan_id \<Rightarrow> ('msg, 'rep) wstate \<Rightarrow> nat" where
  "in_service rc r (WServe msg) = (if rc msg = Some r then 1 else 0)"
| "in_service rc r (WReply r' v) = (if r' = r then 1 else 0)"
| "in_service rc r WSelect = 0"
| "in_service rc r WReturned = 0"

definition in_buf :: "('msg \<Rightarrow> chan_id option) \<Rightarrow> chan_id \<Rightarrow> 'msg list \<Rightarrow> nat" where
  "in_buf rc r buf = length (filter (\<lambda>msg. rc msg = Some r) buf)"

text \<open>The ids of the channels made, in the order of the trace.\<close>

fun made_chans :: "event list \<Rightarrow> chan_id list" where
  "made_chans [] = []"
| "made_chans (Made t r c # es) = r # made_chans es"
| "made_chans (e # es) = made_chans es"

text \<open>
  The counting invariant, for the callers' program points \<open>ps\<close>, the worker's program
  point \<open>wk\<close>, the buffer \<open>buf\<close> of the request channel, the number \<open>L\<close> of channels made
  so far (of which the first \<open>n0\<close> are the coordinator's own) and the trace \<open>tr\<close>:
  the callers made the channels \<open>n0\<close> to \<open>L - 1\<close>, one after the other, all of capacity 0;
  and for every channel \<open>r\<close>: each caller waiting on \<open>r\<close> has one request pending;
  replies sent on \<open>r\<close>, callers waiting on \<open>r\<close> and callers about to send \<open>r\<close> are at most one
  in all; the requests for \<open>r\<close> taken by the worker are the replies sent plus the one in
  service; and nothing of this concerns a channel that no caller made.
\<close>

definition chan_ok ::
  "('msg \<Rightarrow> chan_id option) \<Rightarrow> nat \<Rightarrow> 'msg pc list \<Rightarrow> ('msg, 'rep) wstate \<Rightarrow> 'msg list \<Rightarrow>
     nat \<Rightarrow> event list \<Rightarrow> chan_id \<Rightarrow> bool" where
  "chan_ok rc n0 ps wk buf L tr r \<longleftrightarrow>
     receivers r ps = in_service rc r wk + in_buf rc r buf \<and>
     count_list tr (Sent Worker r) + receivers r ps + senders rc r ps \<le> 1 \<and>
     count_list tr (Dispatched r) = count_list tr (Sent Worker r) + in_service rc r wk \<and>
     (r < n0 \<or> L \<le> r \<longrightarrow>
        count_list tr (Sent Worker r) + receivers r ps + senders rc r ps = 0)"

definition count_inv ::
  "('msg \<Rightarrow> chan_id option) \<Rightarrow> nat \<Rightarrow> 'msg pc list \<Rightarrow> ('msg, 'rep) wstate \<Rightarrow> 'msg list \<Rightarrow>
     nat \<Rightarrow> event list \<Rightarrow> bool" where
  "count_inv rc n0 ps wk buf L tr \<longleftrightarrow>
     n0 \<le> L \<and> made_chans tr = [n0 ..< L] \<and>
     (\<forall>t r c. Made t r c \<in> set tr \<longrightarrow> c = 0) \<and>
     (\<forall>r. chan_ok rc n0 ps wk buf L tr r)"

definition ccm_count_inv :: "('k, 'v, 'm) ccm_world \<Rightarrow> bool" where
  "ccm_count_inv w \<longleftrightarrow>
     count_inv ccm_reply_chan 1 (map pc (ccm_callers w)) (ccm_worker w) (ch_buf (ccm_chan w))
       (length (ccm_made w)) (ccm_trace w) \<and>
     (ccm_worker w = WReturned \<longrightarrow> ch_buf (ccm_chan w) = [] \<and> ch_closed (ccm_chan w))"

definition cm_count_inv :: "('k, 'v, 'm, 's) cm_world \<Rightarrow> bool" where
  "cm_count_inv w \<longleftrightarrow>
     count_inv (\<lambda>msg. Some (cm_reply_chan msg)) 8 (map pc (cm_callers w)) (cm_worker w) []
       (length (cm_made w)) (cm_trace w)"

text \<open>
  Three callers of a uniform-message coordinator: one sets a key, one closes the
  coordinator, one reads the key.
\<close>

definition demo_drain_world :: "(string, int, (string \<times> int) list) ccm_world" where
  "demo_drain_world =
     NewChannelConcurrentMap 0 (\<lambda>a. []) [[ccm_Set ''a'' 1], [ccm_Close], [ccm_Get ''a'']]"

text \<open>One caller closing a uniform-message coordinator twice.\<close>

definition demo_close_twice :: "(string, int, (string \<times> int) list) ccm_world" where
  "demo_close_twice = NewChannelConcurrentMap 0 (\<lambda>a. []) [[ccm_Close, ccm_Close]]"

section \<open>Invariants of the uniform-message coordinator with any number of callers\<close>

text \<open>
  As for the request-typed coordinator, with the buffer of the request channel in
  between: while a caller waits on its reply channel, the request built from its call is
  in the buffer or held by the worker, or the worker holds the reply to it.
\<close>

definition ccm_caller_ok ::
  "('k, 'v, 'm) ccm_Map \<Rightarrow> (('k, 'v) ccm_message, ('k, 'v) ccm_reply) wstate \<Rightarrow>
     ('k, 'v) ccm_message list \<Rightarrow> ('k, 'v) ccm_call list \<Rightarrow>
     (('k, 'v) ccm_call, ('k, 'v) ccm_message, ('k, 'v) ccm_result) caller \<Rightarrow> bool" where
  "ccm_caller_ok M wk buf P c \<longleftrightarrow>
     drop (length (results c)) P = todo c \<and> length (results c) \<le> length P \<and>
     (\<forall>k < length (results c). \<exists>m. results c ! k = fst (ccm_apply M (P ! k) m)) \<and>
     (case pc c of
        Idle \<Rightarrow> True
      | Sending request \<Rightarrow>
          (\<exists>call rest r. todo c = call # rest \<and> ccm_request call r = Some request)
      | Receiving r \<Rightarrow>
          (\<exists>call rest. todo c = call # rest \<and>
             ((\<exists>request \<in> set buf. ccm_request call r = Some request) \<or>
              (case wk of
                 WSelect \<Rightarrow> False
               | WServe request \<Rightarrow> ccm_request call r = Some request
               | WReply r' v \<Rightarrow> r' = r \<and> (\<exists>m. ccm_return v = fst (ccm_apply M call m))
               | WReturned \<Rightarrow> False))))"

definition ccm_hist_inv ::
  "('k, 'v, 'm) ccm_Map \<Rightarrow> ('k, 'v) ccm_call list list \<Rightarrow> ('k, 'v, 'm) ccm_world \<Rightarrow> bool" where
  "ccm_hist_inv M progs w \<longleftrightarrow>
     ccm_count_inv w \<and> length (ccm_callers w) = length progs \<and>
     (\<forall>i < length progs.
        ccm_caller_ok M (ccm_worker w) (ch_buf (ccm_chan w)) (progs ! i) (ccm_callers w ! i))"

section \<open>Replies in the trace and results at the callers\<close>




section \<open>The world in which a call was served\<close>

text \<open>
  In the world \<open>w\<close> the worker holds the request of call number \<open>k\<close> of the program \<open>P\<close>
  of caller \<open>a\<close>, that caller waits for the reply on \<open>r\<close> with \<open>k\<close> calls returned so far,
  and \<open>res\<close> is what the call produces on the map as it is in \<open>w\<close>. A run \<open>sched\<close> from
  \<open>w0\<close> has served the call if it passed through such a world; the invariant says so of
  every call that has returned, and of the call whose reply the worker is about to send.
\<close>

definition cm_served_at ::
  "('k, 'v, 'm, 's) KV_Map \<Rightarrow> ('k, 'v, 'm, 's) cm_world \<Rightarrow> ('k, 'v) cm_call list \<Rightarrow>
     nat \<Rightarrow> nat \<Rightarrow> chan_id \<Rightarrow> ('v, 's) cm_result \<Rightarrow> bool" where
  "cm_served_at M w P a k r res \<longleftrightarrow>
     cm_worker w = WServe (cm_request (P ! k) r) \<and>
     receiver_of r (cm_callers w) = Some a \<and>
     length (results (cm_callers w ! a)) = k \<and>
     res = fst (cm_apply M (cm_storage (cm w)) (P ! k) (cm_heap w (cm_storage (cm w))))"

definition cm_was_served ::
  "('k, 'v, 'm, 's) KV_Map \<Rightarrow> ('k, 'v, 'm, 's) cm_world \<Rightarrow> tid list \<Rightarrow>
     ('k, 'v) cm_call list \<Rightarrow> nat \<Rightarrow> nat \<Rightarrow> chan_id \<Rightarrow> ('v, 's) cm_result \<Rightarrow> bool" where
  "cm_was_served M w0 sched P a k r res \<longleftrightarrow>
     (\<exists>s1 s2. sched = s1 @ s2 \<and> cm_served_at M (cm_run M s1 w0) P a k r res)"

definition cm_served_inv ::
  "('k, 'v, 'm, 's) KV_Map \<Rightarrow> ('k, 'v, 'm, 's) cm_world \<Rightarrow> ('k, 'v) cm_call list list \<Rightarrow>
     tid list \<Rightarrow> ('k, 'v, 'm, 's) cm_world \<Rightarrow> bool" where
  "cm_served_inv M w0 progs sched w \<longleftrightarrow>
     (\<forall>a < length progs. \<forall>k < length (results (cm_callers w ! a)).
        \<exists>r. cm_was_served M w0 sched (progs ! a) a k r (results (cm_callers w ! a) ! k)) \<and>
     (\<forall>r v j call rest.
        cm_worker w = WReply r v \<and> j < length progs \<and> pc (cm_callers w ! j) = Receiving r \<and>
        todo (cm_callers w ! j) = call # rest \<longrightarrow>
        cm_was_served M w0 sched (progs ! j) j (length (results (cm_callers w ! j))) r
          (cm_return call v))"

definition ccm_served_at ::
  "('k, 'v, 'm) ccm_Map \<Rightarrow> ('k, 'v, 'm) ccm_world \<Rightarrow> ('k, 'v) ccm_call list \<Rightarrow>
     nat \<Rightarrow> nat \<Rightarrow> chan_id \<Rightarrow> ('k, 'v) ccm_result \<Rightarrow> bool" where
  "ccm_served_at M w P a k r res \<longleftrightarrow>
     ccm_abort w = None \<and>
     (case ccm_request (P ! k) r of
        None \<Rightarrow> False
      | Some request \<Rightarrow> ccm_worker w = WServe request) \<and>
     receiver_of r (ccm_callers w) = Some a \<and>
     length (results (ccm_callers w ! a)) = k \<and>
     res = fst (ccm_apply M (P ! k) (ccm_heap w (ccm_storage (ccm w))))"

definition ccm_was_served ::
  "('k, 'v, 'm) ccm_Map \<Rightarrow> ('k, 'v, 'm) ccm_world \<Rightarrow> tid list \<Rightarrow>
     ('k, 'v) ccm_call list \<Rightarrow> nat \<Rightarrow> nat \<Rightarrow> chan_id \<Rightarrow> ('k, 'v) ccm_result \<Rightarrow> bool" where
  "ccm_was_served M w0 sched P a k r res \<longleftrightarrow>
     (\<exists>s1 s2. sched = s1 @ s2 \<and> ccm_served_at M (ccm_run M s1 w0) P a k r res)"

definition ccm_served_inv ::
  "('k, 'v, 'm) ccm_Map \<Rightarrow> ('k, 'v, 'm) ccm_world \<Rightarrow> ('k, 'v) ccm_call list list \<Rightarrow>
     tid list \<Rightarrow> ('k, 'v, 'm) ccm_world \<Rightarrow> bool" where
  "ccm_served_inv M w0 progs sched w \<longleftrightarrow>
     (\<forall>a < length progs. \<forall>k < length (results (ccm_callers w ! a)).
        progs ! a ! k \<noteq> ccm_Close \<longrightarrow>
        (\<exists>r. ccm_was_served M w0 sched (progs ! a) a k r (results (ccm_callers w ! a) ! k))) \<and>
     (\<forall>r v j call rest.
        ccm_worker w = WReply r v \<and> j < length progs \<and> pc (ccm_callers w ! j) = Receiving r \<and>
        todo (ccm_callers w ! j) = call # rest \<longrightarrow>
        ccm_was_served M w0 sched (progs ! j) j (length (results (ccm_callers w ! j))) r
          (ccm_return v))"

section \<open>Basic facts about the steps\<close>

lemmas ccm_eval = Let_def NewChannelConcurrentMap_def make_chan_def ccm_step_def
  ccm_caller_step_def ccm_loopMap_step_def chan_close_def chan_recv_def chan_send_def

lemmas cm_eval = Let_def NewConcurrentMap_def cm_step_def cm_caller_step_def
  cm_loopMap_step_def

lemma ccm_dispatch_recognized:
  "ccm_recognized request \<Longrightarrow>
     \<exists>r v m'. ccm_dispatch M request m = Inr (r, v, m') \<and> ccm_reply_chan request = Some r"
  by (cases request) (auto split: prod.splits)

lemma ccm_aborted_stuck: "ccm_abort w \<noteq> None \<Longrightarrow> ccm_step M t w = None"
  by (simp add: ccm_step_def)

lemma receiver_of_Some:
  "receiver_of r cs = Some j \<Longrightarrow> j < length cs \<and> pc (cs ! j) = Receiving r"
proof (induction cs arbitrary: j)
  case Nil
  then show ?case by simp
next
  case (Cons c cs)
  then show ?case by (cases j) (auto split: if_splits)
qed

lemma receiver_of_None:
  "receiver_of r cs = None \<longleftrightarrow> (\<forall>c \<in> set cs. pc c \<noteq> Receiving r)"
  by (induction cs) auto

lemma ccm_step_cases [consumes 1, case_names close_panic close make send_panic send recv_closed recv unrecognized serve reply]:
  assumes "ccm_step M t w = Some w'"
  obtains
    (close_panic) i rest where "t = Caller i" "ccm_abort w = None" "i < length (ccm_callers w)"
      "pc (ccm_callers w ! i) = Idle" "todo (ccm_callers w ! i) = ccm_Close # rest"
      "ch_closed (ccm_chan w)"
      "w' = w\<lparr>ccm_abort := Some (Panic ''close of closed channel'')\<rparr>"
  | (close) i rest where "t = Caller i" "ccm_abort w = None" "i < length (ccm_callers w)"
      "pc (ccm_callers w ! i) = Idle" "todo (ccm_callers w ! i) = ccm_Close # rest"
      "\<not> ch_closed (ccm_chan w)"
      "w' = w\<lparr>ccm_chan := (ccm_chan w)\<lparr>ch_closed := True\<rparr>,
              ccm_callers := (ccm_callers w)
                [i := (ccm_callers w ! i)\<lparr>todo := rest,
                       results := results (ccm_callers w ! i) @ [R_unit]\<rparr>],
              ccm_trace := ccm_trace w @ [Closed (Caller i) (ccm_requestCh (ccm w))]\<rparr>"
  | (make) i call rest request where "t = Caller i" "ccm_abort w = None"
      "i < length (ccm_callers w)"
      "pc (ccm_callers w ! i) = Idle" "todo (ccm_callers w ! i) = call # rest"
      "ccm_request call (length (ccm_made w)) = Some request"
      "w' = w\<lparr>ccm_made := ccm_made w @ [0],
              ccm_callers := (ccm_callers w)[i := (ccm_callers w ! i)\<lparr>pc := Sending request\<rparr>],
              ccm_trace := ccm_trace w @ [Made (Caller i) (length (ccm_made w)) 0]\<rparr>"
  | (send_panic) i request where "t = Caller i" "ccm_abort w = None"
      "i < length (ccm_callers w)"
      "pc (ccm_callers w ! i) = Sending request" "ch_closed (ccm_chan w)"
      "w' = w\<lparr>ccm_abort := Some (Panic ''send on closed channel'')\<rparr>"
  | (send) i request r where "t = Caller i" "ccm_abort w = None"
      "i < length (ccm_callers w)"
      "pc (ccm_callers w ! i) = Sending request" "\<not> ch_closed (ccm_chan w)"
      "length (ch_buf (ccm_chan w)) < ch_cap (ccm_chan w)"
      "ccm_reply_chan request = Some r"
      "w' = w\<lparr>ccm_chan := (ccm_chan w)\<lparr>ch_buf := ch_buf (ccm_chan w) @ [request]\<rparr>,
              ccm_callers := (ccm_callers w)[i := (ccm_callers w ! i)\<lparr>pc := Receiving r\<rparr>],
              ccm_trace := ccm_trace w @ [Sent (Caller i) (ccm_requestCh (ccm w))]\<rparr>"
  | (recv_closed) "t = Worker" "ccm_abort w = None" "ccm_worker w = WSelect"
      "ch_buf (ccm_chan w) = []" "ch_closed (ccm_chan w)"
      "w' = w\<lparr>ccm_worker := WReturned\<rparr>"
  | (recv) request rest where "t = Worker" "ccm_abort w = None" "ccm_worker w = WSelect"
      "ch_buf (ccm_chan w) = request # rest"
      "w' = w\<lparr>ccm_chan := (ccm_chan w)\<lparr>ch_buf := rest\<rparr>,
              ccm_worker := WServe request,
              ccm_trace := ccm_trace w @
                (case ccm_reply_chan request of None \<Rightarrow> [] | Some r \<Rightarrow> [Dispatched r])\<rparr>"
  | (unrecognized) ty where "t = Worker" "ccm_abort w = None"
      "ccm_worker w = WServe (otherValue ty)"
      "w' = w\<lparr>ccm_abort := Some (Panic (''Unrecognized req type '' @ ty))\<rparr>"
  | (serve) request r v m' where "t = Worker" "ccm_abort w = None"
      "ccm_worker w = WServe request" "ccm_reply_chan request = Some r"
      "ccm_dispatch M request (ccm_heap w (ccm_storage (ccm w))) = Inr (r, v, m')"
      "w' = w\<lparr>ccm_heap := (ccm_heap w)(ccm_storage (ccm w) := m'),
              ccm_worker := WReply r v\<rparr>"
  | (reply) r v j call rest where "t = Worker" "ccm_abort w = None"
      "ccm_worker w = WReply r v" "receiver_of r (ccm_callers w) = Some j"
      "j < length (ccm_callers w)" "pc (ccm_callers w ! j) = Receiving r"
      "todo (ccm_callers w ! j) = call # rest"
      "w' = w\<lparr>ccm_worker := WSelect,
              ccm_callers := (ccm_callers w)
                [j := (ccm_callers w ! j)\<lparr>todo := rest, pc := Idle,
                       results := results (ccm_callers w ! j) @ [ccm_return v]\<rparr>],
              ccm_trace := ccm_trace w @ [Sent Worker r]\<rparr>"
proof -
  from assms have na: "ccm_abort w = None"
    by (auto simp: ccm_step_def split: if_splits)
  show thesis
  proof (cases t)
    case Worker
    with assms na have st: "ccm_loopMap_step M w = Some w'" by (simp add: ccm_step_def)
    show thesis
    proof (cases "ccm_worker w")
      case WSelect
      with st Worker na show thesis
        using recv_closed recv
        by (auto simp: ccm_loopMap_step_def chan_recv_def split: list.splits if_splits)
    next
      case (WServe request)
      show thesis
      proof (cases request)
        case (otherValue ty)
        with st Worker na WServe show thesis using unrecognized
          by (auto simp: ccm_loopMap_step_def)
      qed (use st Worker na WServe serve in \<open>auto simp: ccm_loopMap_step_def split: prod.splits\<close>)
    next
      case (WReply r v)
      with st obtain j where j: "receiver_of r (ccm_callers w) = Some j"
        by (auto simp: ccm_loopMap_step_def split: option.splits)
      with st WReply obtain call rest where td: "todo (ccm_callers w ! j) = call # rest"
        by (auto simp: ccm_loopMap_step_def Let_def split: list.splits)
      from j have "j < length (ccm_callers w)" "pc (ccm_callers w ! j) = Receiving r"
        using receiver_of_Some by blast+
      moreover from st WReply j td have
        "w' = w\<lparr>ccm_worker := WSelect,
              ccm_callers := (ccm_callers w)
                [j := (ccm_callers w ! j)\<lparr>todo := rest, pc := Idle,
                       results := results (ccm_callers w ! j) @ [ccm_return v]\<rparr>],
              ccm_trace := ccm_trace w @ [Sent Worker r]\<rparr>"
        by (simp add: ccm_loopMap_step_def Let_def)
      ultimately show thesis using reply [OF Worker na WReply j _ _ td] by blast
    next
      case WReturned
      with st show thesis by (simp add: ccm_loopMap_step_def)
    qed
  next
    case (Caller i)
    with assms na have st: "ccm_caller_step i w = Some w'" by (simp add: ccm_step_def)
    then have i: "i < length (ccm_callers w)"
      by (auto simp: ccm_caller_step_def split: if_splits)
    show thesis
    proof (cases "pc (ccm_callers w ! i)")
      case Idle
      from st i Idle obtain call rest where td: "todo (ccm_callers w ! i) = call # rest"
        by (auto simp: ccm_caller_step_def Let_def split: list.splits)
      show thesis
      proof (cases "ccm_request call (length (ccm_made w))")
        case None
        then have "call = ccm_Close" by (cases call) auto
        with None st i Idle td Caller na show thesis using close_panic close
          by (auto simp: ccm_caller_step_def Let_def chan_close_def split: if_splits)
      next
        case (Some request)
        with st i Idle td Caller na show thesis using make
          by (auto simp: ccm_caller_step_def Let_def)
      qed
    next
      case (Sending request)
      with st i Caller na show thesis using send_panic send
        by (auto simp: ccm_caller_step_def Let_def chan_send_def split: if_splits option.splits)
    next
      case (Receiving r)
      with st i show thesis by (simp add: ccm_caller_step_def Let_def)
    qed
  qed
qed

lemma cm_step_cases [consumes 1, case_names make send serve reply]:
  assumes "cm_step M t w = Some w'"
  obtains
    (make) i call rest where "t = Caller i" "i < length (cm_callers w)"
      "pc (cm_callers w ! i) = Idle" "todo (cm_callers w ! i) = call # rest"
      "w' = w\<lparr>cm_made := cm_made w @ [0],
              cm_callers := (cm_callers w)
                [i := (cm_callers w ! i)\<lparr>pc := Sending (cm_request call (length (cm_made w)))\<rparr>],
              cm_trace := cm_trace w @ [Made (Caller i) (length (cm_made w)) 0]\<rparr>"
  | (send) i msg where "t = Caller i" "i < length (cm_callers w)"
      "pc (cm_callers w ! i) = Sending msg" "cm_worker w = WSelect"
      "w' = w\<lparr>cm_worker := WServe msg,
              cm_callers := (cm_callers w)
                [i := (cm_callers w ! i)\<lparr>pc := Receiving (cm_reply_chan msg)\<rparr>],
              cm_trace := cm_trace w @
                [Sent (Caller i) (cm_chan_of (cm w) msg), Dispatched (cm_reply_chan msg)]\<rparr>"
  | (serve) msg v m' where "t = Worker" "cm_worker w = WServe msg"
      "cm_select_case M (cm w) msg (cm_heap w (cm_storage (cm w))) = (cm_reply_chan msg, v, m')"
      "w' = w\<lparr>cm_heap := (cm_heap w)(cm_storage (cm w) := m'),
              cm_worker := WReply (cm_reply_chan msg) v\<rparr>"
  | (reply) r v j call rest where "t = Worker"
      "cm_worker w = WReply r v" "receiver_of r (cm_callers w) = Some j"
      "j < length (cm_callers w)" "pc (cm_callers w ! j) = Receiving r"
      "todo (cm_callers w ! j) = call # rest"
      "w' = w\<lparr>cm_worker := WSelect,
              cm_callers := (cm_callers w)
                [j := (cm_callers w ! j)\<lparr>todo := rest, pc := Idle,
                       results := results (cm_callers w ! j) @ [cm_return call v]\<rparr>],
              cm_trace := cm_trace w @ [Sent Worker r]\<rparr>"
proof (cases t)
  case Worker
  with assms have st: "cm_loopMap_step M w = Some w'" by (simp add: cm_step_def)
  show thesis
  proof (cases "cm_worker w")
    case WSelect
    with st show thesis by (simp add: cm_loopMap_step_def)
  next
    case (WServe msg)
    obtain r v m' where sc:
      "cm_select_case M (cm w) msg (cm_heap w (cm_storage (cm w))) = (r, v, m')"
      by (cases "cm_select_case M (cm w) msg (cm_heap w (cm_storage (cm w)))") auto
    then have "r = cm_reply_chan msg"
      by (cases msg) (auto split: prod.splits)
    with sc st WServe Worker show thesis using serve
      by (auto simp: cm_loopMap_step_def)
  next
    case (WReply r v)
    with st obtain j where j: "receiver_of r (cm_callers w) = Some j"
      by (auto simp: cm_loopMap_step_def split: option.splits)
    with st WReply obtain call rest where td: "todo (cm_callers w ! j) = call # rest"
      by (auto simp: cm_loopMap_step_def Let_def split: list.splits)
    from j have "j < length (cm_callers w)" "pc (cm_callers w ! j) = Receiving r"
      using receiver_of_Some by blast+
    moreover from st WReply j td have
      "w' = w\<lparr>cm_worker := WSelect,
              cm_callers := (cm_callers w)
                [j := (cm_callers w ! j)\<lparr>todo := rest, pc := Idle,
                       results := results (cm_callers w ! j) @ [cm_return call v]\<rparr>],
              cm_trace := cm_trace w @ [Sent Worker r]\<rparr>"
      by (simp add: cm_loopMap_step_def Let_def)
    ultimately show thesis using reply [OF Worker WReply j _ _ td] by blast
  next
    case WReturned
    with st show thesis by (simp add: cm_loopMap_step_def)
  qed
next
  case (Caller i)
  with assms have st: "cm_caller_step i w = Some w'" by (simp add: cm_step_def)
  then have i: "i < length (cm_callers w)"
    by (auto simp: cm_caller_step_def split: if_splits)
  show thesis
  proof (cases "pc (cm_callers w ! i)")
    case Idle
    with st i Caller show thesis using make
      by (auto simp: cm_caller_step_def Let_def split: list.splits)
  next
    case (Sending msg)
    with st i Caller show thesis using send
      by (auto simp: cm_caller_step_def Let_def split: wstate.splits)
  next
    case (Receiving r)
    with st i show thesis by (simp add: cm_caller_step_def Let_def)
  qed
qed

lemma ccm_returned_step:
  assumes "ccm_step M t w = Some w'" "ccm_worker w = WReturned"
  shows "ccm_worker w' = WReturned \<and> ccm_heap w' = ccm_heap w
         \<and> filter is_Dispatched (ccm_trace w') = filter is_Dispatched (ccm_trace w)"
  using assms by (cases rule: ccm_step_cases) auto

lemma ccm_returned_run:
  "ccm_worker w = WReturned \<Longrightarrow>
     ccm_worker (ccm_run M sched w) = WReturned \<and> ccm_heap (ccm_run M sched w) = ccm_heap w
     \<and> filter is_Dispatched (ccm_trace (ccm_run M sched w)) = filter is_Dispatched (ccm_trace w)"
proof (induction sched arbitrary: w)
  case Nil
  then show ?case by simp
next
  case (Cons t ts)
  show ?case
  proof (cases "ccm_step M t w")
    case None
    with Cons show ?thesis by simp
  next
    case (Some w')
    with Cons.prems have "ccm_worker w' = WReturned \<and> ccm_heap w' = ccm_heap w
         \<and> filter is_Dispatched (ccm_trace w') = filter is_Dispatched (ccm_trace w)"
      using ccm_returned_step by blast
    with Cons.IH [of w'] Some show ?thesis by simp
  qed
qed

lemma ccm_returned_blocked: "ccm_worker w = WReturned \<Longrightarrow> ccm_step M Worker w = None"
  by (simp add: ccm_step_def ccm_loopMap_step_def)

lemma receiver_of_update:
  "receiver_of r cs = None \<Longrightarrow> i < length cs \<Longrightarrow>
     receiver_of r (cs[i := c]) = (if pc c = Receiving r then Some i else None)"
proof (induction cs arbitrary: i)
  case Nil
  then show ?case by simp
next
  case (Cons a cs)
  then show ?case by (cases i) (auto split: if_splits)
qed

lemma caller_update_all:
  "c\<lparr>todo := a, pc := b, results := r\<rparr> = \<lparr>todo = a, pc = b, results = r\<rparr>"
  by (cases c) simp

lemma ccm_dispatch_request:
  "ccm_request call r = Some request \<Longrightarrow>
     ccm_reply_chan request = Some r \<and>
     (\<exists>v. ccm_dispatch M request m = Inr (r, v, snd (ccm_apply M call m))
          \<and> ccm_return v = fst (ccm_apply M call m))"
  by (cases call) (auto split: prod.splits)

lemma ccm_request_Some: "call \<noteq> ccm_Close \<Longrightarrow> \<exists>request. ccm_request call r = Some request"
  by (cases call) auto

lemma ccm_roundtrip:
  assumes "ccm_abort w = None" "ccm_worker w = WSelect" "ch_buf (ccm_chan w) = []"
    "\<not> ch_closed (ccm_chan w)" "0 < ch_cap (ccm_chan w)"
    "i < length (ccm_callers w)" "pc (ccm_callers w ! i) = Idle"
    "todo (ccm_callers w ! i) = call # rest" "call \<noteq> ccm_Close"
    "receiver_of (length (ccm_made w)) (ccm_callers w) = None"
  shows "ccm_run M [Caller i, Caller i, Worker, Worker, Worker] w =
     w\<lparr>ccm_heap := (ccm_heap w)
          (ccm_storage (ccm w) := snd (ccm_apply M call (ccm_heap w (ccm_storage (ccm w))))),
       ccm_made := ccm_made w @ [0],
       ccm_callers := (ccm_callers w)
         [i := \<lparr>todo = rest, pc = Idle,
                results = results (ccm_callers w ! i)
                  @ [fst (ccm_apply M call (ccm_heap w (ccm_storage (ccm w))))]\<rparr>],
       ccm_trace := ccm_trace w @
         [Made (Caller i) (length (ccm_made w)) 0, Sent (Caller i) (ccm_requestCh (ccm w)),
          Dispatched (length (ccm_made w)), Sent Worker (length (ccm_made w))]\<rparr>"
proof -
  let ?L = "length (ccm_made w)"
  let ?c = "ccm_callers w ! i"
  let ?m = "ccm_heap w (ccm_storage (ccm w))"
  from assms(9) obtain request where rq: "ccm_request call ?L = Some request"
    using ccm_request_Some by blast
  from ccm_dispatch_request [OF rq, of M ?m] obtain v where
    rc: "ccm_reply_chan request = Some ?L"
    and d: "ccm_dispatch M request ?m = Inr (?L, v, snd (ccm_apply M call ?m))"
    and rv: "ccm_return v = fst (ccm_apply M call ?m)"
    by blast
  define w1 where "w1 = w\<lparr>ccm_made := ccm_made w @ [0],
      ccm_callers := (ccm_callers w)[i := ?c\<lparr>pc := Sending request\<rparr>],
      ccm_trace := ccm_trace w @ [Made (Caller i) ?L 0]\<rparr>"
  have s1: "ccm_step M (Caller i) w = Some w1"
    using assms rq by (simp add: ccm_step_def ccm_caller_step_def Let_def w1_def)
  define w2 where "w2 = w1\<lparr>ccm_chan := (ccm_chan w)\<lparr>ch_buf := [request]\<rparr>,
      ccm_callers := (ccm_callers w)[i := ?c\<lparr>pc := Receiving ?L\<rparr>],
      ccm_trace := ccm_trace w1 @ [Sent (Caller i) (ccm_requestCh (ccm w))]\<rparr>"
  have s2: "ccm_step M (Caller i) w1 = Some w2"
    using assms rc
    by (simp add: ccm_step_def ccm_caller_step_def Let_def w1_def w2_def chan_send_def)
  define w3 where "w3 = w2\<lparr>ccm_chan := ccm_chan w, ccm_worker := WServe request,
      ccm_trace := ccm_trace w2 @ [Dispatched ?L]\<rparr>"
  have cw: "(ccm_chan w)\<lparr>ch_buf := []\<rparr> = ccm_chan w"
    using assms(3) by (cases "ccm_chan w") simp
  have s3: "ccm_step M Worker w2 = Some w3"
    using assms rc cw
    by (simp add: ccm_step_def ccm_loopMap_step_def Let_def w1_def w2_def w3_def chan_recv_def)
  define w4 where "w4 = w3\<lparr>ccm_heap := (ccm_heap w)(ccm_storage (ccm w) := snd (ccm_apply M call ?m)),
      ccm_worker := WReply ?L v\<rparr>"
  have s4: "ccm_step M Worker w3 = Some w4"
    using assms d
    by (simp add: ccm_step_def ccm_loopMap_step_def Let_def w1_def w2_def w3_def w4_def)
  define w5 where "w5 = w4\<lparr>ccm_worker := WSelect,
      ccm_callers := (ccm_callers w)
         [i := \<lparr>todo = rest, pc = Idle, results = results ?c @ [ccm_return v]\<rparr>],
      ccm_trace := ccm_trace w4 @ [Sent Worker ?L]\<rparr>"
  have rcv: "receiver_of ?L (ccm_callers w4) = Some i"
    using assms(6,10) by (simp add: w1_def w2_def w3_def w4_def receiver_of_update)
  have s5: "ccm_step M Worker w4 = Some w5"
    using assms rcv
    by (simp add: ccm_step_def ccm_loopMap_step_def Let_def w1_def w2_def w3_def w4_def w5_def
          caller_update_all)
  have "ccm_run M [Caller i, Caller i, Worker, Worker, Worker] w = w5"
    using s1 s2 s3 s4 s5 by simp
  also have "w5 = w\<lparr>ccm_heap := (ccm_heap w)
          (ccm_storage (ccm w) := snd (ccm_apply M call (ccm_heap w (ccm_storage (ccm w))))),
       ccm_made := ccm_made w @ [0],
       ccm_callers := (ccm_callers w)
         [i := \<lparr>todo = rest, pc = Idle,
                results = results (ccm_callers w ! i)
                  @ [fst (ccm_apply M call (ccm_heap w (ccm_storage (ccm w))))]\<rparr>],
       ccm_trace := ccm_trace w @
         [Made (Caller i) (length (ccm_made w)) 0, Sent (Caller i) (ccm_requestCh (ccm w)),
          Dispatched (length (ccm_made w)), Sent Worker (length (ccm_made w))]\<rparr>"
    using assms(2) rv by (cases w) (simp add: w1_def w2_def w3_def w4_def w5_def)
  finally show ?thesis .
qed


lemma cm_select_request:
  "cm_reply_chan (cm_request call r) = r \<and>
   (\<exists>v. cm_select_case M c (cm_request call r) m = (r, v, snd (cm_apply M (cm_storage c) call m))
        \<and> cm_return call v = fst (cm_apply M (cm_storage c) call m))"
  by (cases call) (auto split: prod.splits)

lemma cm_roundtrip:
  assumes "cm_worker w = WSelect"
    "i < length (cm_callers w)" "pc (cm_callers w ! i) = Idle"
    "todo (cm_callers w ! i) = call # rest"
    "receiver_of (length (cm_made w)) (cm_callers w) = None"
  shows "cm_run M [Caller i, Caller i, Worker, Worker] w =
     w\<lparr>cm_heap := (cm_heap w)
          (cm_storage (cm w) :=
             snd (cm_apply M (cm_storage (cm w)) call (cm_heap w (cm_storage (cm w))))),
       cm_made := cm_made w @ [0],
       cm_callers := (cm_callers w)
         [i := \<lparr>todo = rest, pc = Idle,
                results = results (cm_callers w ! i)
                  @ [fst (cm_apply M (cm_storage (cm w)) call (cm_heap w (cm_storage (cm w))))]\<rparr>],
       cm_trace := cm_trace w @
         [Made (Caller i) (length (cm_made w)) 0,
          Sent (Caller i) (cm_chan_of (cm w) (cm_request call (length (cm_made w)))),
          Dispatched (length (cm_made w)), Sent Worker (length (cm_made w))]\<rparr>"
proof -
  let ?L = "length (cm_made w)"
  let ?c = "cm_callers w ! i"
  let ?m = "cm_heap w (cm_storage (cm w))"
  let ?msg = "cm_request call ?L"
  from cm_select_request [of call ?L M "cm w" ?m] obtain v where
    rc: "cm_reply_chan ?msg = ?L"
    and d: "cm_select_case M (cm w) ?msg ?m = (?L, v, snd (cm_apply M (cm_storage (cm w)) call ?m))"
    and rv: "cm_return call v = fst (cm_apply M (cm_storage (cm w)) call ?m)"
    by blast
  define w1 where "w1 = w\<lparr>cm_made := cm_made w @ [0],
      cm_callers := (cm_callers w)[i := ?c\<lparr>pc := Sending ?msg\<rparr>],
      cm_trace := cm_trace w @ [Made (Caller i) ?L 0]\<rparr>"
  have s1: "cm_step M (Caller i) w = Some w1"
    using assms by (simp add: cm_step_def cm_caller_step_def Let_def w1_def)
  define w2 where "w2 = w1\<lparr>cm_worker := WServe ?msg,
      cm_callers := (cm_callers w)[i := ?c\<lparr>pc := Receiving ?L\<rparr>],
      cm_trace := cm_trace w1 @ [Sent (Caller i) (cm_chan_of (cm w) ?msg), Dispatched ?L]\<rparr>"
  have s2: "cm_step M (Caller i) w1 = Some w2"
    using assms rc
    by (simp add: cm_step_def cm_caller_step_def Let_def w1_def w2_def)
  define w3 where "w3 = w2\<lparr>cm_heap := (cm_heap w)
        (cm_storage (cm w) := snd (cm_apply M (cm_storage (cm w)) call ?m)),
      cm_worker := WReply ?L v\<rparr>"
  have s3: "cm_step M Worker w2 = Some w3"
    using assms d
    by (simp add: cm_step_def cm_loopMap_step_def Let_def w1_def w2_def w3_def)
  define w4 where "w4 = w3\<lparr>cm_worker := WSelect,
      cm_callers := (cm_callers w)
         [i := \<lparr>todo = rest, pc = Idle, results = results ?c @ [cm_return call v]\<rparr>],
      cm_trace := cm_trace w3 @ [Sent Worker ?L]\<rparr>"
  have rcv: "receiver_of ?L (cm_callers w3) = Some i"
    using assms(2,5) by (simp add: w1_def w2_def w3_def receiver_of_update)
  have s4: "cm_step M Worker w3 = Some w4"
    using assms rcv
    by (simp add: cm_step_def cm_loopMap_step_def Let_def w1_def w2_def w3_def w4_def
          caller_update_all)
  have "cm_run M [Caller i, Caller i, Worker, Worker] w = w4"
    using s1 s2 s3 s4 by simp
  also have "w4 = w\<lparr>cm_heap := (cm_heap w)
          (cm_storage (cm w) :=
             snd (cm_apply M (cm_storage (cm w)) call (cm_heap w (cm_storage (cm w))))),
       cm_made := cm_made w @ [0],
       cm_callers := (cm_callers w)
         [i := \<lparr>todo = rest, pc = Idle,
                results = results (cm_callers w ! i)
                  @ [fst (cm_apply M (cm_storage (cm w)) call (cm_heap w (cm_storage (cm w))))]\<rparr>],
       cm_trace := cm_trace w @
         [Made (Caller i) (length (cm_made w)) 0,
          Sent (Caller i) (cm_chan_of (cm w) (cm_request call (length (cm_made w)))),
          Dispatched (length (cm_made w)), Sent Worker (length (cm_made w))]\<rparr>"
    using assms(1) rv by (cases w) (simp add: w1_def w2_def w3_def w4_def)
  finally show ?thesis .
qed

lemma cm_roundtrip_result:
  assumes "cm_worker w = WSelect"
    "i < length (cm_callers w)" "pc (cm_callers w ! i) = Idle"
    "todo (cm_callers w ! i) = call # rest"
    "receiver_of (length (cm_made w)) (cm_callers w) = None"
  shows "results (cm_callers (cm_run M [Caller i, Caller i, Worker, Worker] w) ! i)
      = results (cm_callers w ! i)
          @ [fst (cm_apply M (cm_storage (cm w)) call (cm_heap w (cm_storage (cm w))))]"
    and "cm_heap (cm_run M [Caller i, Caller i, Worker, Worker] w) (cm_storage (cm w))
      = snd (cm_apply M (cm_storage (cm w)) call (cm_heap w (cm_storage (cm w))))"
    and "todo (cm_callers (cm_run M [Caller i, Caller i, Worker, Worker] w) ! i) = rest"
    and "pc (cm_callers (cm_run M [Caller i, Caller i, Worker, Worker] w) ! i) = Idle"
    and "cm_worker (cm_run M [Caller i, Caller i, Worker, Worker] w) = WSelect"
    and "cm_heap (cm_run M [Caller i, Caller i, Worker, Worker] w)
      = (cm_heap w)(cm_storage (cm w) :=
          snd (cm_apply M (cm_storage (cm w)) call (cm_heap w (cm_storage (cm w)))))"
  unfolding cm_roundtrip [OF assms] using assms(1,2) by simp_all

lemma ccm_roundtrip_result:
  assumes "ccm_abort w = None" "ccm_worker w = WSelect" "ch_buf (ccm_chan w) = []"
    "\<not> ch_closed (ccm_chan w)" "0 < ch_cap (ccm_chan w)"
    "i < length (ccm_callers w)" "pc (ccm_callers w ! i) = Idle"
    "todo (ccm_callers w ! i) = call # rest" "call \<noteq> ccm_Close"
    "receiver_of (length (ccm_made w)) (ccm_callers w) = None"
  shows "results (ccm_callers (ccm_run M [Caller i, Caller i, Worker, Worker, Worker] w) ! i)
      = results (ccm_callers w ! i)
          @ [fst (ccm_apply M call (ccm_heap w (ccm_storage (ccm w))))]"
    and "ccm_heap (ccm_run M [Caller i, Caller i, Worker, Worker, Worker] w) (ccm_storage (ccm w))
      = snd (ccm_apply M call (ccm_heap w (ccm_storage (ccm w))))"
    and "todo (ccm_callers (ccm_run M [Caller i, Caller i, Worker, Worker, Worker] w) ! i) = rest"
    and "pc (ccm_callers (ccm_run M [Caller i, Caller i, Worker, Worker, Worker] w) ! i) = Idle"
    and "ccm_worker (ccm_run M [Caller i, Caller i, Worker, Worker, Worker] w) = WSelect"
  unfolding ccm_roundtrip [OF assms] using assms(2,6) by simp_all

section \<open>A single caller: the invariant\<close>

lemma ccm_direct_Cons:
  "ccm_direct M (c # cs) m =
     (fst (ccm_apply M c m) # fst (ccm_direct M cs (snd (ccm_apply M c m))),
      snd (ccm_direct M cs (snd (ccm_apply M c m))))"
  by (simp split: prod.splits)

lemma ccm_request_not_other: "ccm_request call r = Some (otherValue ty) \<Longrightarrow> False"
  by (cases call) auto

lemma ccm_ahead_served:
  "ccm_ahead M P m0 rs (call # rest) m \<Longrightarrow>
     ccm_ahead M P m0 (rs @ [fst (ccm_apply M call m)]) rest (snd (ccm_apply M call m))"
  by (simp add: ccm_ahead_def ccm_direct_Cons del: ccm_direct.simps)

lemma ccm_single_init:
  "ccm_Close \<notin> set P \<Longrightarrow> ccm_single_inv M P (h st) (NewChannelConcurrentMap st h [P])"
  by (simp add: ccm_single_inv_def NewChannelConcurrentMap_def make_chan_def ccm_ahead_def)

lemma ccm_single_step:
  assumes "ccm_step M t w = Some w'" "ccm_single_inv M P m0 w"
  shows "ccm_single_inv M P m0 w'"
proof -
  from assms(2) obtain c where c: "ccm_callers w = [c]"
    by (auto simp: ccm_single_inv_def)
  from assms(1) show ?thesis
  proof (cases rule: ccm_step_cases)
    case (close_panic i rest)
    with assms(2) c show ?thesis by (auto simp: ccm_single_inv_def)
  next
    case (close i rest)
    with assms(2) c show ?thesis by (auto simp: ccm_single_inv_def)
  next
    case (make i call rest request)
    with assms(2) c show ?thesis
      by (auto simp: ccm_single_inv_def)
  next
    case (send_panic i request)
    with assms(2) c show ?thesis by (auto simp: ccm_single_inv_def)
  next
    case (send i request r)
    with c have i: "i = 0" by simp
    with send assms(2) c obtain call rest r' where
      rq: "todo c = call # rest" "ccm_request call r' = Some request"
      by (auto simp: ccm_single_inv_def)
    with send(7) have "r' = r"
      using ccm_dispatch_request by fastforce
    with send assms(2) c rq i show ?thesis
      by (auto simp: ccm_single_inv_def)
  next
    case recv_closed
    with assms(2) c show ?thesis by (auto simp: ccm_single_inv_def)
  next
    case (recv request rest)
    with assms(2) c show ?thesis
      by (cases "pc c") (auto simp: ccm_single_inv_def)
  next
    case (unrecognized ty)
    note unrecognized(3)
    with assms(2) c have False
      by (cases "pc c") (auto simp: ccm_single_inv_def dest: ccm_request_not_other)
    then show ?thesis ..
  next
    case (serve request r v m')
    from assms(2) serve(3) c obtain r' call rest where
      c': "pc c = Receiving r'" "todo c = call # rest"
         "ccm_request call r' = Some request"
         "ccm_ahead M P m0 (results c) (todo c) (ccm_heap w (ccm_storage (ccm w)))"
         "ch_buf (ccm_chan w) = []" "ccm_Close \<notin> set (todo c)"
      by (cases "pc c") (auto simp: ccm_single_inv_def)
    from ccm_dispatch_request [OF c'(3), of M "ccm_heap w (ccm_storage (ccm w))"] serve(4,5)
    have "r' = r" "m' = snd (ccm_apply M call (ccm_heap w (ccm_storage (ccm w))))"
      "ccm_return v = fst (ccm_apply M call (ccm_heap w (ccm_storage (ccm w))))"
      by auto
    with c c' ccm_ahead_served [of M P m0 "results c" call rest] serve assms(2) show ?thesis
      by (auto simp: ccm_single_inv_def)
  next
    case (reply r v j call rest)
    with c have j: "j = 0" by simp
    with reply assms(2) c show ?thesis
      by (auto simp: ccm_single_inv_def)
  qed
qed


lemma ccm_single_run:
  "ccm_single_inv M P m0 w \<Longrightarrow> ccm_single_inv M P m0 (ccm_run M sched w)"
proof (induction sched arbitrary: w)
  case Nil
  then show ?case by simp
next
  case (Cons t ts)
  show ?case
  proof (cases "ccm_step M t w")
    case None
    with Cons show ?thesis by simp
  next
    case (Some w')
    with Cons.prems have "ccm_single_inv M P m0 w'"
      by (intro ccm_single_step [of M t w w' P m0])
    with Cons.IH [of w'] Some show ?thesis by simp
  qed
qed

lemma ccm_single_prefix:
  assumes "ccm_single_inv M P m0 w"
  shows "\<exists>rs rest. map results (ccm_callers w) = [rs] \<and> fst (ccm_direct M P m0) = rs @ rest"
proof -
  from assms obtain c where c: "ccm_callers w = [c]"
    by (auto simp: ccm_single_inv_def)
  from assms c have "\<exists>rest. fst (ccm_direct M P m0) = results c @ rest"
    by (cases "pc c"; cases "ccm_worker w") (auto simp: ccm_single_inv_def ccm_ahead_def)
  with c show ?thesis by simp
qed

lemma ccm_run_append: "ccm_run M (xs @ ys) w = ccm_run M ys (ccm_run M xs w)"
  by (induction xs arbitrary: w) auto

lemma ccm_single_complete:
  assumes "ccm_abort w = None" "ccm_worker w = WSelect" "ch_buf (ccm_chan w) = []"
    "\<not> ch_closed (ccm_chan w)" "0 < ch_cap (ccm_chan w)"
    "ccm_callers w = [c]" "pc c = Idle" "todo c = td" "ccm_Close \<notin> set td"
  shows "map results (ccm_callers
            (ccm_run M (concat (replicate (length td) [Caller 0, Caller 0, Worker, Worker, Worker])) w))
          = [results c @ fst (ccm_direct M td (ccm_heap w (ccm_storage (ccm w))))]
       \<and> ccm_heap
            (ccm_run M (concat (replicate (length td) [Caller 0, Caller 0, Worker, Worker, Worker])) w)
            (ccm_storage (ccm w))
          = snd (ccm_direct M td (ccm_heap w (ccm_storage (ccm w))))"
  using assms
proof (induction td arbitrary: w c)
  case Nil
  then show ?case by simp
next
  case (Cons call rest)
  let ?round = "[Caller 0, Caller 0, Worker, Worker, Worker]"
  let ?m = "ccm_heap w (ccm_storage (ccm w))"
  let ?c1 = "\<lparr>todo = rest, pc = Idle, results = results c @ [fst (ccm_apply M call ?m)]\<rparr>"
  define w1 where "w1 = ccm_run M ?round w"
  have rt: "w1 =
     w\<lparr>ccm_heap := (ccm_heap w)(ccm_storage (ccm w) := snd (ccm_apply M call ?m)),
       ccm_made := ccm_made w @ [0],
       ccm_callers := (ccm_callers w)
         [0 := \<lparr>todo = rest, pc = Idle,
                results = results (ccm_callers w ! 0) @ [fst (ccm_apply M call ?m)]\<rparr>],
       ccm_trace := ccm_trace w @
         [Made (Caller 0) (length (ccm_made w)) 0, Sent (Caller 0) (ccm_requestCh (ccm w)),
          Dispatched (length (ccm_made w)), Sent Worker (length (ccm_made w))]\<rparr>"
    unfolding w1_def using Cons.prems
    by (intro ccm_roundtrip) auto
  have p1: "ccm_abort w1 = None" "ccm_worker w1 = WSelect" "ch_buf (ccm_chan w1) = []"
    "\<not> ch_closed (ccm_chan w1)" "0 < ch_cap (ccm_chan w1)"
    "ccm_callers w1 = [?c1]" "pc ?c1 = Idle" "todo ?c1 = rest" "ccm_Close \<notin> set rest"
    "ccm_storage (ccm w1) = ccm_storage (ccm w)"
    "ccm_heap w1 (ccm_storage (ccm w)) = snd (ccm_apply M call ?m)"
    using Cons.prems by (simp_all add: rt)
  from Cons.IH [OF p1(1-9)] p1(10,11)
  have "map results (ccm_callers (ccm_run M (concat (replicate (length rest) ?round)) w1))
          = [results ?c1 @ fst (ccm_direct M rest (snd (ccm_apply M call ?m)))]
       \<and> ccm_heap (ccm_run M (concat (replicate (length rest) ?round)) w1) (ccm_storage (ccm w))
          = snd (ccm_direct M rest (snd (ccm_apply M call ?m)))"
    by simp
  moreover have "ccm_run M (concat (replicate (length (call # rest)) ?round)) w
      = ccm_run M (concat (replicate (length rest) ?round)) w1"
    unfolding w1_def by (simp only: length_Cons replicate_Suc concat.simps ccm_run_append)
  ultimately show ?case
    by (simp only: ccm_direct_Cons fst_conv snd_conv) simp
qed


lemma cm_direct_Cons:
  "cm_direct M a (c # cs) m =
     (fst (cm_apply M a c m) # fst (cm_direct M a cs (snd (cm_apply M a c m))),
      snd (cm_direct M a cs (snd (cm_apply M a c m))))"
  by (simp split: prod.splits)

lemma cm_ahead_served:
  "cm_ahead M a P m0 rs (call # rest) m \<Longrightarrow>
     cm_ahead M a P m0 (rs @ [fst (cm_apply M a call m)]) rest (snd (cm_apply M a call m))"
  by (simp add: cm_ahead_def cm_direct_Cons del: cm_direct.simps)

lemma cm_single_init: "cm_single_inv M st P (h st) (NewConcurrentMap st h [P])"
  by (simp add: cm_single_inv_def NewConcurrentMap_def cm_ahead_def)

lemma cm_single_step:
  assumes "cm_step M t w = Some w'" "cm_single_inv M a P m0 w"
  shows "cm_single_inv M a P m0 w'"
proof -
  from assms(2) obtain c where c: "cm_callers w = [c]" and a: "cm_storage (cm w) = a"
    by (auto simp: cm_single_inv_def)
  from assms(1) show ?thesis
  proof (cases rule: cm_step_cases)
    case (make i call rest)
    with assms(2) c show ?thesis
      by (auto simp: cm_single_inv_def)
  next
    case (send i msg)
    with c have i: "i = 0" by simp
    with send assms(2) c obtain call rest r where
      rq: "todo c = call # rest" "msg = cm_request call r"
      by (auto simp: cm_single_inv_def)
    then have "cm_reply_chan msg = r"
      using cm_select_request by fastforce
    with send assms(2) c rq i show ?thesis
      by (auto simp: cm_single_inv_def)
  next
    case (serve msg v m')
    from assms(2) serve(2) c obtain r call rest where
      c': "pc c = Receiving r" "todo c = call # rest" "msg = cm_request call r"
         "cm_ahead M a P m0 (results c) (todo c) (cm_heap w a)"
      by (cases "pc c") (auto simp: cm_single_inv_def)
    from cm_select_request [of call r M "cm w" "cm_heap w a"] serve(3) c'(3) a
    have "cm_reply_chan msg = r" "m' = snd (cm_apply M a call (cm_heap w a))"
      "cm_return call v = fst (cm_apply M a call (cm_heap w a))"
      by auto
    with c c' cm_ahead_served [of M a P m0 "results c" call rest] serve assms(2) a show ?thesis
      by (auto simp: cm_single_inv_def)
  next
    case (reply r v j call rest)
    with c have j: "j = 0" by simp
    with reply assms(2) c show ?thesis
      by (auto simp: cm_single_inv_def)
  qed
qed

lemma cm_single_run:
  "cm_single_inv M a P m0 w \<Longrightarrow> cm_single_inv M a P m0 (cm_run M sched w)"
proof (induction sched arbitrary: w)
  case Nil
  then show ?case by simp
next
  case (Cons t ts)
  show ?case
  proof (cases "cm_step M t w")
    case None
    with Cons show ?thesis by simp
  next
    case (Some w')
    with Cons.prems have "cm_single_inv M a P m0 w'"
      by (intro cm_single_step [of M t w w' a P m0])
    with Cons.IH [of w'] Some show ?thesis by simp
  qed
qed

lemma cm_single_prefix:
  assumes "cm_single_inv M a P m0 w"
  shows "\<exists>rs rest. map results (cm_callers w) = [rs] \<and> fst (cm_direct M a P m0) = rs @ rest"
proof -
  from assms obtain c where c: "cm_callers w = [c]"
    by (auto simp: cm_single_inv_def)
  from assms c have "\<exists>rest. fst (cm_direct M a P m0) = results c @ rest"
    by (cases "pc c"; cases "cm_worker w") (auto simp: cm_single_inv_def cm_ahead_def)
  with c show ?thesis by simp
qed

lemma cm_run_append: "cm_run M (xs @ ys) w = cm_run M ys (cm_run M xs w)"
  by (induction xs arbitrary: w) auto

lemma cm_single_complete:
  assumes "cm_worker w = WSelect" "cm_callers w = [c]" "pc c = Idle" "todo c = td"
  shows "map results (cm_callers
            (cm_run M (concat (replicate (length td) [Caller 0, Caller 0, Worker, Worker])) w))
          = [results c @ fst (cm_direct M (cm_storage (cm w)) td (cm_heap w (cm_storage (cm w))))]
       \<and> cm_heap
            (cm_run M (concat (replicate (length td) [Caller 0, Caller 0, Worker, Worker])) w)
            (cm_storage (cm w))
          = snd (cm_direct M (cm_storage (cm w)) td (cm_heap w (cm_storage (cm w))))"
  using assms
proof (induction td arbitrary: w c)
  case Nil
  then show ?case by simp
next
  case (Cons call rest)
  let ?round = "[Caller 0, Caller 0, Worker, Worker]"
  let ?a = "cm_storage (cm w)"
  let ?m = "cm_heap w ?a"
  let ?c1 = "\<lparr>todo = rest, pc = Idle, results = results c @ [fst (cm_apply M ?a call ?m)]\<rparr>"
  define w1 where "w1 = cm_run M ?round w"
  have rt: "w1 =
     w\<lparr>cm_heap := (cm_heap w)(?a := snd (cm_apply M ?a call ?m)),
       cm_made := cm_made w @ [0],
       cm_callers := (cm_callers w)
         [0 := \<lparr>todo = rest, pc = Idle,
                results = results (cm_callers w ! 0) @ [fst (cm_apply M ?a call ?m)]\<rparr>],
       cm_trace := cm_trace w @
         [Made (Caller 0) (length (cm_made w)) 0,
          Sent (Caller 0) (cm_chan_of (cm w) (cm_request call (length (cm_made w)))),
          Dispatched (length (cm_made w)), Sent Worker (length (cm_made w))]\<rparr>"
    unfolding w1_def using Cons.prems
    by (intro cm_roundtrip) auto
  have p1: "cm_worker w1 = WSelect" "cm_callers w1 = [?c1]" "pc ?c1 = Idle" "todo ?c1 = rest"
    "cm_storage (cm w1) = ?a" "cm_heap w1 ?a = snd (cm_apply M ?a call ?m)"
    using Cons.prems by (simp_all add: rt)
  from Cons.IH [OF p1(1-4)] p1(5,6)
  have "map results (cm_callers (cm_run M (concat (replicate (length rest) ?round)) w1))
          = [results ?c1 @ fst (cm_direct M ?a rest (snd (cm_apply M ?a call ?m)))]
       \<and> cm_heap (cm_run M (concat (replicate (length rest) ?round)) w1) ?a
          = snd (cm_direct M ?a rest (snd (cm_apply M ?a call ?m)))"
    by simp
  moreover have "cm_run M (concat (replicate (length (call # rest)) ?round)) w
      = cm_run M (concat (replicate (length rest) ?round)) w1"
    unfolding w1_def by (simp only: length_Cons replicate_Suc concat.simps cm_run_append)
  ultimately show ?case
    by (simp only: cm_direct_Cons fst_conv snd_conv) simp
qed

section \<open>Any number of callers of the request-typed coordinator: the invariant\<close>

lemma cm_caller_ok_worker:
  "(\<And>r. pc c \<noteq> Receiving r) \<Longrightarrow> cm_caller_ok M st wk P c \<Longrightarrow> cm_caller_ok M st wk' P c"
  by (cases "pc c") (auto simp: cm_caller_ok_def)

lemma drop_eq_ConsD:
  "drop n xs = y # ys \<Longrightarrow> n < length xs \<and> xs ! n = y \<and> drop (Suc n) xs = ys"
  by (metis Cons_nth_drop_Suc drop_all list.distinct(1) list.inject not_le)

lemma cm_hist_init: "cm_hist_inv M st progs (NewConcurrentMap st h progs)"
  by (auto simp: cm_hist_inv_def NewConcurrentMap_def cm_caller_ok_def)

lemma cm_hist_step:
  assumes "cm_step M t w = Some w'" "cm_hist_inv M st progs w"
  shows "cm_hist_inv M st progs w'"
proof -
  from assms(2) have st: "cm_storage (cm w) = st" and len: "length (cm_callers w) = length progs"
    and ok: "\<And>i. i < length progs \<Longrightarrow>
               cm_caller_ok M st (cm_worker w) (progs ! i) (cm_callers w ! i)"
    and uniq: "\<And>i j r r'. i < length progs \<Longrightarrow> j < length progs \<Longrightarrow>
        pc (cm_callers w ! i) = Receiving r \<Longrightarrow> pc (cm_callers w ! j) = Receiving r' \<Longrightarrow> i = j"
    by (auto simp: cm_hist_inv_def)
  from assms(1) show ?thesis
  proof (cases rule: cm_step_cases)
    case (make i call rest)
    have "cm_caller_ok M st (cm_worker w') (progs ! k) (cm_callers w' ! k)"
      if k: "k < length progs" for k
    proof (cases "k = i")
      case True
      with ok [OF k] make show ?thesis
        by (auto simp: cm_caller_ok_def)
    next
      case False
      with ok [OF k] make show ?thesis by simp
    qed
    moreover have "i' = j'" if "i' < length progs" "j' < length progs"
      "pc (cm_callers w' ! i') = Receiving r" "pc (cm_callers w' ! j') = Receiving r'"
      for i' j' r r'
      using that make uniq [of i' j' r r'] len
      by (auto simp: nth_list_update split: if_splits)
    ultimately show ?thesis using st len make
      by (auto simp: cm_hist_inv_def)
  next
    case (send i msg)
    have nor: "pc (cm_callers w ! k) \<noteq> Receiving r" if "k < length progs" for k r
      using ok [OF that] send(4) by (auto simp: cm_caller_ok_def)
    have "cm_caller_ok M st (cm_worker w') (progs ! k) (cm_callers w' ! k)"
      if k: "k < length progs" for k
    proof (cases "k = i")
      case True
      from ok [OF k] True send(3) obtain call rest r where
        "todo (cm_callers w ! i) = call # rest" "msg = cm_request call r"
        by (auto simp: cm_caller_ok_def)
      moreover from this have "cm_reply_chan msg = r"
        using cm_select_request by fastforce
      ultimately show ?thesis using ok [OF k] True send
        by (auto simp: cm_caller_ok_def)
    next
      case False
      with ok [OF k] nor [OF k] send show ?thesis
        by (auto intro: cm_caller_ok_worker)
    qed
    moreover have "i' = j'" if "i' < length progs" "j' < length progs"
      "pc (cm_callers w' ! i') = Receiving r" "pc (cm_callers w' ! j') = Receiving r'"
      for i' j' r r'
      using that send nor len
      by (auto simp: nth_list_update split: if_splits)
    ultimately show ?thesis using st len send
      by (auto simp: cm_hist_inv_def)
  next
    case (serve msg v m')
    have "cm_caller_ok M st (cm_worker w') (progs ! k) (cm_callers w' ! k)"
      if k: "k < length progs" for k
    proof (cases "pc (cm_callers w ! k)")
      case (Receiving r)
      with ok [OF k] serve(2) obtain call rest where
        c: "todo (cm_callers w ! k) = call # rest" "msg = cm_request call r"
        by (auto simp: cm_caller_ok_def)
      from cm_select_request [of call r M "cm w" "cm_heap w (cm_storage (cm w))"] serve(3) c st
      have "cm_reply_chan msg = r"
        "cm_return call v = fst (cm_apply M st call (cm_heap w (cm_storage (cm w))))"
        by auto
      with ok [OF k] Receiving c serve show ?thesis
        by (auto simp: cm_caller_ok_def)
    qed (use ok [OF k] serve in \<open>auto simp: cm_caller_ok_def\<close>)
    with st len serve uniq show ?thesis
      by (auto simp: cm_hist_inv_def)
  next
    case (reply r v j call rest)
    from reply(4) len have j: "j < length progs" by simp
    have nor: "pc (cm_callers w ! k) \<noteq> Receiving r'" if "k < length progs" "k \<noteq> j" for k r'
      using uniq [OF that(1) j _ reply(5)] that(2) by auto
    have "cm_caller_ok M st (cm_worker w') (progs ! k) (cm_callers w' ! k)"
      if k: "k < length progs" for k
    proof (cases "k = j")
      case True
      from ok [OF j] reply(2,5,6) obtain m where
        m: "cm_return call v = fst (cm_apply M st call m)"
        and td: "drop (length (results (cm_callers w ! j))) (progs ! j) = call # rest"
        by (auto simp: cm_caller_ok_def)
      from drop_eq_ConsD [OF td] have
        d: "length (results (cm_callers w ! j)) < length (progs ! j)"
           "progs ! j ! length (results (cm_callers w ! j)) = call"
           "drop (Suc (length (results (cm_callers w ! j)))) (progs ! j) = rest"
        by auto
      have "\<exists>m. (results (cm_callers w ! j) @ [cm_return call v]) ! n
                 = fst (cm_apply M st (progs ! j ! n) m)"
        if "n < Suc (length (results (cm_callers w ! j)))" for n
      proof (cases "n = length (results (cm_callers w ! j))")
        case True
        with m d show ?thesis by auto
      next
        case False
        with that ok [OF j] show ?thesis
          by (auto simp: cm_caller_ok_def nth_append)
      qed
      with True reply d len j show ?thesis
        by (auto simp: cm_caller_ok_def)
    next
      case False
      with ok [OF k] nor [OF k] reply show ?thesis
        by (auto intro: cm_caller_ok_worker)
    qed
    moreover have "i' = j'" if "i' < length progs" "j' < length progs"
      "pc (cm_callers w' ! i') = Receiving r1" "pc (cm_callers w' ! j') = Receiving r2"
      for i' j' r1 r2
      using that reply nor len
      by (auto simp: nth_list_update split: if_splits)
    ultimately show ?thesis using st len reply
      by (auto simp: cm_hist_inv_def)
  qed
qed

lemma cm_hist_run:
  "cm_hist_inv M st progs w \<Longrightarrow> cm_hist_inv M st progs (cm_run M sched w)"
proof (induction sched arbitrary: w)
  case Nil
  then show ?case by simp
next
  case (Cons t ts)
  show ?case
  proof (cases "cm_step M t w")
    case None
    with Cons show ?thesis by simp
  next
    case (Some w')
    with Cons.prems have "cm_hist_inv M st progs w'"
      by (intro cm_hist_step [of M t w w' st progs])
    with Cons.IH [of w'] Some show ?thesis by simp
  qed
qed

lemma cm_struct_step: "cm_step M t w = Some w' \<Longrightarrow> cm w' = cm w"
  by (cases rule: cm_step_cases) auto

lemma cm_struct_run: "cm (cm_run M sched w) = cm w"
proof (induction sched arbitrary: w)
  case Nil
  then show ?case by simp
next
  case (Cons t ts)
  then show ?case
    by (cases "cm_step M t w") (auto dest: cm_struct_step)
qed

section \<open>Counting requests and replies\<close>

lemma filter_update_length:
  "i < length xs \<Longrightarrow>
     length (filter P (xs[i := y])) + (if P (xs ! i) then 1 else 0)
       = length (filter P xs) + (if P y then 1 else 0)"
proof (induction xs arbitrary: i)
  case Nil
  then show ?case by simp
next
  case (Cons x xs)
  then show ?case by (cases i) auto
qed

lemma receivers_update:
  "i < length ps \<Longrightarrow>
     receivers r (ps[i := p]) + (if ps ! i = Receiving r then 1 else 0)
       = receivers r ps + (if p = Receiving r then 1 else 0)"
  unfolding receivers_def by (rule filter_update_length)

lemma senders_update:
  "i < length ps \<Longrightarrow>
     senders rc r (ps[i := p]) + (if sending_on rc r (ps ! i) then 1 else 0)
       = senders rc r ps + (if sending_on rc r p then 1 else 0)"
  unfolding senders_def by (rule filter_update_length)

lemma made_chans_append: "made_chans (xs @ ys) = made_chans xs @ made_chans ys"
  by (induction xs rule: made_chans.induct) auto


lemma count_invI:
  assumes "n0 \<le> L" "made_chans tr = [n0 ..< L]" "\<And>t r c. Made t r c \<in> set tr \<Longrightarrow> c = 0"
    "\<And>r. chan_ok rc n0 ps wk buf L tr r"
  shows "count_inv rc n0 ps wk buf L tr"
  using assms unfolding count_inv_def by blast

lemma count_invD:
  assumes "count_inv rc n0 ps wk buf L tr"
  shows "n0 \<le> L" "made_chans tr = [n0 ..< L]" "\<And>t r c. Made t r c \<in> set tr \<Longrightarrow> c = 0"
    "\<And>r. chan_ok rc n0 ps wk buf L tr r"
  using assms unfolding count_inv_def by blast+

lemma count_inv_make:
  assumes "count_inv rc n0 ps wk buf L tr" "i < length ps" "ps ! i = Idle" "rc msg = Some L"
  shows "count_inv rc n0 (ps[i := Sending msg]) wk buf (Suc L) (tr @ [Made t L 0])"
proof (rule count_invI)
  note D = count_invD [OF assms(1)]
  show "n0 \<le> Suc L" using D(1) by simp
  show "made_chans (tr @ [Made t L 0]) = [n0 ..< Suc L]"
    using D(1,2) by (simp add: made_chans_append)
  show "c = 0" if "Made t' r c \<in> set (tr @ [Made t L 0])" for t' r c
    using that D(3) by auto
  fix r
  have 1: "receivers r (ps[i := Sending msg]) = receivers r ps"
    using receivers_update [of i ps r "Sending msg"] assms(2,3) by simp
  have 2: "senders rc r (ps[i := Sending msg]) = senders rc r ps + (if r = L then 1 else 0)"
    using senders_update [of i ps rc r "Sending msg"] assms(2,3,4) by auto
  from D(4) [of r] show "chan_ok rc n0 (ps[i := Sending msg]) wk buf (Suc L) (tr @ [Made t L 0]) r"
    unfolding chan_ok_def 1 2 using D(1) by (auto simp: count_list_append)
qed

lemma count_inv_send:
  assumes "count_inv rc n0 ps wk buf L tr" "i < length ps" "ps ! i = Sending msg"
    "rc msg = Some r0" "t \<noteq> Worker"
  shows "count_inv rc n0 (ps[i := Receiving r0]) wk (buf @ [msg]) L (tr @ [Sent t x])"
proof (rule count_invI)
  note D = count_invD [OF assms(1)]
  show "n0 \<le> L" using D(1) .
  show "made_chans (tr @ [Sent t x]) = [n0 ..< L]"
    using D(2) by (simp add: made_chans_append)
  show "c = 0" if "Made t' r c \<in> set (tr @ [Sent t x])" for t' r c
    using that D(3) by auto
  fix r
  have 1: "receivers r (ps[i := Receiving r0]) = receivers r ps + (if r = r0 then 1 else 0)"
    using receivers_update [of i ps r "Receiving r0"] assms(2,3) by auto
  have 2: "senders rc r (ps[i := Receiving r0]) + (if r = r0 then 1 else 0) = senders rc r ps"
    using senders_update [of i ps rc r "Receiving r0"] assms(2,3,4) by auto
  have 3: "in_buf rc r (buf @ [msg]) = in_buf rc r buf + (if r = r0 then 1 else 0)"
    using assms(4) by (auto simp: in_buf_def)
  from D(4) [of r] 2 show "chan_ok rc n0 (ps[i := Receiving r0]) wk (buf @ [msg]) L (tr @ [Sent t x]) r"
    unfolding chan_ok_def 1 3 using assms(5) by (auto simp: count_list_append split: if_splits)
qed

lemma count_inv_recv:
  assumes "count_inv rc n0 ps WSelect (msg # buf) L tr"
  shows "count_inv rc n0 ps (WServe msg) buf L
           (tr @ (case rc msg of None \<Rightarrow> [] | Some r \<Rightarrow> [Dispatched r]))"
proof (rule count_invI)
  note D = count_invD [OF assms(1)]
  let ?tr = "tr @ (case rc msg of None \<Rightarrow> [] | Some r \<Rightarrow> [Dispatched r])"
  show "n0 \<le> L" using D(1) .
  show "made_chans ?tr = [n0 ..< L]"
    using D(2) by (simp add: made_chans_append split: option.splits)
  show "c = 0" if "Made t' r c \<in> set ?tr" for t' r c
    using that D(3) by (auto split: option.splits)
  fix r
  have 3: "in_buf rc r (msg # buf) = in_buf rc r buf + (if rc msg = Some r then 1 else 0)"
    by (auto simp: in_buf_def)
  from D(4) [of r] show "chan_ok rc n0 ps (WServe msg) buf L ?tr r"
    unfolding chan_ok_def 3 by (auto simp: count_list_append split: option.splits)
qed

lemma count_inv_serve:
  assumes "count_inv rc n0 ps (WServe msg) buf L tr" "rc msg = Some r0"
  shows "count_inv rc n0 ps (WReply r0 v) buf L tr"
proof (rule count_invI)
  note D = count_invD [OF assms(1)]
  show "n0 \<le> L" using D(1) .
  show "made_chans tr = [n0 ..< L]" using D(2) .
  show "c = 0" if "Made t' r c \<in> set tr" for t' r c
    using that D(3) by auto
  fix r
  from D(4) [of r] show "chan_ok rc n0 ps (WReply r0 v) buf L tr r"
    unfolding chan_ok_def using assms(2) by auto
qed

lemma count_inv_reply:
  assumes "count_inv rc n0 ps (WReply r0 v) buf L tr" "j < length ps" "ps ! j = Receiving r0"
  shows "count_inv rc n0 (ps[j := Idle]) WSelect buf L (tr @ [Sent Worker r0])"
proof (rule count_invI)
  note D = count_invD [OF assms(1)]
  show "n0 \<le> L" using D(1) .
  show "made_chans (tr @ [Sent Worker r0]) = [n0 ..< L]"
    using D(2) by (simp add: made_chans_append)
  show "c = 0" if "Made t' r c \<in> set (tr @ [Sent Worker r0])" for t' r c
    using that D(3) by auto
  fix r
  have 1: "receivers r (ps[j := Idle]) + (if r = r0 then 1 else 0) = receivers r ps"
    using receivers_update [of j ps r Idle] assms(2,3) by auto
  have 2: "senders rc r (ps[j := Idle]) = senders rc r ps"
    using senders_update [of j ps rc r Idle] assms(2,3) by auto
  from D(4) [of r] 1 show "chan_ok rc n0 (ps[j := Idle]) WSelect buf L (tr @ [Sent Worker r0]) r"
    unfolding chan_ok_def 2 by (auto simp: count_list_append split: if_splits)
qed

lemma count_inv_other:
  assumes "count_inv rc n0 ps wk buf L tr" "i < length ps" "ps ! i = p"
    "\<And>t r c. e \<noteq> Made t r c" "\<And>r. e \<noteq> Sent Worker r" "\<And>r. e \<noteq> Dispatched r"
  shows "count_inv rc n0 (ps[i := p]) wk buf L (tr @ [e])"
proof (rule count_invI)
  note D = count_invD [OF assms(1)]
  have me: "made_chans [e] = []" using assms(4) by (cases e) auto
  show "n0 \<le> L" using D(1) .
  show "made_chans (tr @ [e]) = [n0 ..< L]"
    using D(2) me by (simp add: made_chans_append)
  show "c = 0" if "Made t' r c \<in> set (tr @ [e])" for t' r c
    using that D(3) assms(4) [of t' r c] by auto
  fix r
  have "ps[i := p] = ps" using assms(2,3) by (metis list_update_id)
  with D(4) [of r] show "chan_ok rc n0 (ps[i := p]) wk buf L (tr @ [e]) r"
    unfolding chan_ok_def using assms(5,6) by (auto simp: count_list_append)
qed

lemma count_inv_return:
  assumes "count_inv rc n0 ps WSelect buf L tr"
  shows "count_inv rc n0 ps WReturned buf L tr"
proof (rule count_invI)
  note D = count_invD [OF assms]
  show "n0 \<le> L" using D(1) .
  show "made_chans tr = [n0 ..< L]" using D(2) .
  show "c = 0" if "Made t' r c \<in> set tr" for t' r c
    using that D(3) by auto
  fix r
  from D(4) [of r] show "chan_ok rc n0 ps WReturned buf L tr r"
    unfolding chan_ok_def in_service.simps .
qed

lemma ccm_request_reply_chan:
  "ccm_request call r = Some request \<Longrightarrow> ccm_reply_chan request = Some r"
  by (cases call) auto

lemma map_pc_same:
  "i < length cs \<Longrightarrow> pc c = pc (cs ! i) \<Longrightarrow> map pc (cs[i := c]) = map pc cs"
  by (simp add: map_update list_update_same_conv)

lemma ccm_count_init: "ccm_count_inv (NewChannelConcurrentMap st h progs)"
proof -
  have "filter (\<lambda>p. p = Receiving r) (map (pc \<circ> (\<lambda>p. \<lparr>todo = p, pc = Idle, results = []\<rparr>)) progs) = []" for r
    by (induction progs) auto
  moreover have "filter (sending_on rc r) (map (pc \<circ> (\<lambda>p. \<lparr>todo = p, pc = Idle, results = []\<rparr>)) progs) = []" for r rc
    by (induction progs) auto
  ultimately show ?thesis
    by (simp add: ccm_count_inv_def NewChannelConcurrentMap_def make_chan_def count_inv_def
        chan_ok_def receivers_def senders_def in_buf_def)
qed

lemma ccm_count_step:
  assumes "ccm_step M t w = Some w'" "ccm_count_inv w"
  shows "ccm_count_inv w'"
proof -
  from assms(2) have ci: "count_inv ccm_reply_chan 1 (map pc (ccm_callers w)) (ccm_worker w)
      (ch_buf (ccm_chan w)) (length (ccm_made w)) (ccm_trace w)"
    and ret: "ccm_worker w = WReturned \<Longrightarrow> ch_buf (ccm_chan w) = [] \<and> ch_closed (ccm_chan w)"
    by (auto simp: ccm_count_inv_def)
  from assms(1) show ?thesis
  proof (cases rule: ccm_step_cases)
    case (close_panic i rest)
    with assms(2) show ?thesis by (simp add: ccm_count_inv_def)
  next
    case (close i rest)
    have "(map pc (ccm_callers w))[i := Idle] = map pc (ccm_callers w)"
      using close(3,4) by (simp add: list_update_same_conv)
    with count_inv_other [OF ci, of i Idle "Closed (Caller i) (ccm_requestCh (ccm w))"] close(3,4)
    have "count_inv ccm_reply_chan 1 (map pc (ccm_callers w)) (ccm_worker w)
        (ch_buf (ccm_chan w)) (length (ccm_made w))
        (ccm_trace w @ [Closed (Caller i) (ccm_requestCh (ccm w))])"
      by simp
    with close ret show ?thesis
      by (auto simp: ccm_count_inv_def map_pc_same)
  next
    case (make i call rest request)
    from make(6) have "ccm_reply_chan request = Some (length (ccm_made w))"
      by (rule ccm_request_reply_chan)
    from count_inv_make [OF ci _ _ this, of i "Caller i"] make(3,4)
    have "count_inv ccm_reply_chan 1 ((map pc (ccm_callers w))[i := Sending request])
        (ccm_worker w) (ch_buf (ccm_chan w)) (Suc (length (ccm_made w)))
        (ccm_trace w @ [Made (Caller i) (length (ccm_made w)) 0])"
      by simp
    with make ret show ?thesis
      by (simp add: ccm_count_inv_def map_update)
  next
    case (send_panic i request)
    with assms(2) show ?thesis by (simp add: ccm_count_inv_def)
  next
    case (send i request r)
    from count_inv_send [OF ci _ _ send(7), of i "Caller i" "ccm_requestCh (ccm w)"] send(3,4)
    have "count_inv ccm_reply_chan 1 ((map pc (ccm_callers w))[i := Receiving r])
        (ccm_worker w) (ch_buf (ccm_chan w) @ [request]) (length (ccm_made w))
        (ccm_trace w @ [Sent (Caller i) (ccm_requestCh (ccm w))])"
      by simp
    with send ret show ?thesis
      by (auto simp: ccm_count_inv_def map_update)
  next
    case recv_closed
    with ci show ?thesis
      by (simp add: ccm_count_inv_def count_inv_return)
  next
    case (recv request rest)
    with ci count_inv_recv [of ccm_reply_chan 1 "map pc (ccm_callers w)" request rest
        "length (ccm_made w)" "ccm_trace w"]
    show ?thesis
      by (simp add: ccm_count_inv_def)
  next
    case (unrecognized ty)
    with assms(2) show ?thesis by (simp add: ccm_count_inv_def)
  next
    case (serve request r v m')
    with ci count_inv_serve [of ccm_reply_chan 1 "map pc (ccm_callers w)" request
        "ch_buf (ccm_chan w)" "length (ccm_made w)" "ccm_trace w" r v]
    show ?thesis
      by (simp add: ccm_count_inv_def)
  next
    case (reply r v j call rest)
    with ci count_inv_reply [of ccm_reply_chan 1 "map pc (ccm_callers w)" r v
        "ch_buf (ccm_chan w)" "length (ccm_made w)" "ccm_trace w" j]
    show ?thesis
      by (simp add: ccm_count_inv_def map_update)
  qed
qed

lemma ccm_count_run: "ccm_count_inv w \<Longrightarrow> ccm_count_inv (ccm_run M sched w)"
proof (induction sched arbitrary: w)
  case Nil
  then show ?case by simp
next
  case (Cons t ts)
  show ?case
  proof (cases "ccm_step M t w")
    case None
    with Cons show ?thesis by simp
  next
    case (Some w')
    with Cons.prems have "ccm_count_inv w'"
      by (intro ccm_count_step [of M t w w'])
    with Cons.IH [of w'] Some show ?thesis by simp
  qed
qed

lemma cm_count_init: "cm_count_inv (NewConcurrentMap st h progs)"
proof -
  have "filter (\<lambda>p. p = Receiving r) (map (pc \<circ> (\<lambda>p. \<lparr>todo = p, pc = Idle, results = []\<rparr>)) progs) = []" for r
    by (induction progs) auto
  moreover have "filter (sending_on rc r) (map (pc \<circ> (\<lambda>p. \<lparr>todo = p, pc = Idle, results = []\<rparr>)) progs) = []" for r rc
    by (induction progs) auto
  moreover have "[8 ..< 8] = ([] :: nat list)" by simp
  ultimately show ?thesis
    by (simp add: cm_count_inv_def NewConcurrentMap_def count_inv_def
        chan_ok_def receivers_def senders_def in_buf_def del: upt_conv_Nil)
qed

lemma cm_count_step:
  assumes "cm_step M t w = Some w'" "cm_count_inv w"
  shows "cm_count_inv w'"
proof -
  from assms(2) have ci: "count_inv (\<lambda>msg. Some (cm_reply_chan msg)) 8 (map pc (cm_callers w)) (cm_worker w)
      [] (length (cm_made w)) (cm_trace w)"
    by (auto simp: cm_count_inv_def)
  from assms(1) show ?thesis
  proof (cases rule: cm_step_cases)
    case (make i call rest)
    have "(\<lambda>msg. Some (cm_reply_chan msg)) (cm_request call (length (cm_made w))) = Some (length (cm_made w))"
      using cm_select_request by fastforce
    from count_inv_make [OF ci _ _ this, of i "Caller i"] make(2,3)
    have "count_inv (\<lambda>msg. Some (cm_reply_chan msg)) 8
        ((map pc (cm_callers w))[i := Sending (cm_request call (length (cm_made w)))])
        (cm_worker w) [] (Suc (length (cm_made w)))
        (cm_trace w @ [Made (Caller i) (length (cm_made w)) 0])"
      by simp
    with make show ?thesis
      by (simp add: cm_count_inv_def map_update)
  next
    case (send i msg)
    from count_inv_send [OF ci, of i msg "cm_reply_chan msg" "Caller i" "cm_chan_of (cm w) msg"]
      send(2,3)
    have "count_inv (\<lambda>msg. Some (cm_reply_chan msg)) 8
        ((map pc (cm_callers w))[i := Receiving (cm_reply_chan msg)])
        (cm_worker w) [msg] (length (cm_made w))
        (cm_trace w @ [Sent (Caller i) (cm_chan_of (cm w) msg)])"
      by simp
    from count_inv_recv [OF this [unfolded send(4)]] send show ?thesis
      by (simp add: cm_count_inv_def map_update)
  next
    case (serve msg v m')
    with ci count_inv_serve [of "\<lambda>msg. Some (cm_reply_chan msg)" 8 "map pc (cm_callers w)" msg "[]"
        "length (cm_made w)" "cm_trace w" "cm_reply_chan msg" v]
    show ?thesis
      by (simp add: cm_count_inv_def)
  next
    case (reply r v j call rest)
    with ci count_inv_reply [of "\<lambda>msg. Some (cm_reply_chan msg)" 8 "map pc (cm_callers w)" r v
        "[]" "length (cm_made w)" "cm_trace w" j]
    show ?thesis
      by (simp add: cm_count_inv_def map_update)
  qed
qed

lemma cm_count_run: "cm_count_inv w \<Longrightarrow> cm_count_inv (cm_run M sched w)"
proof (induction sched arbitrary: w)
  case Nil
  then show ?case by simp
next
  case (Cons t ts)
  show ?case
  proof (cases "cm_step M t w")
    case None
    with Cons show ?thesis by simp
  next
    case (Some w')
    with Cons.prems have "cm_count_inv w'"
      by (intro cm_count_step [of M t w w'])
    with Cons.IH [of w'] Some show ?thesis by simp
  qed
qed



lemma receiver_of_same_pc:
  "i < length cs \<Longrightarrow> pc c = pc (cs ! i) \<Longrightarrow> receiver_of r (cs[i := c]) = receiver_of r cs"
proof (induction cs arbitrary: i)
  case Nil
  then show ?case by simp
next
  case (Cons a cs)
  then show ?case by (cases i) auto
qed

lemma ccm_dispatch_reply_chan:
  "ccm_dispatch M request m = Inr (r, v, m') \<Longrightarrow> ccm_reply_chan request = Some r"
  by (cases request) (auto split: prod.splits)

lemma ccm_close_drain:
  assumes "ccm_abort w = None" "ccm_worker w = WSelect" "ch_buf (ccm_chan w) = [request]"
    "\<not> ch_closed (ccm_chan w)"
    "i < length (ccm_callers w)" "pc (ccm_callers w ! i) = Idle"
    "todo (ccm_callers w ! i) = ccm_Close # rest"
    "receiver_of r (ccm_callers w) = Some j" "todo (ccm_callers w ! j) = call # rest'"
    "ccm_dispatch M request (ccm_heap w (ccm_storage (ccm w))) = Inr (r, v, m')"
  shows "ccm_run M [Caller i, Worker, Worker, Worker, Worker] w =
     w\<lparr>ccm_heap := (ccm_heap w)(ccm_storage (ccm w) := m'),
       ccm_chan := (ccm_chan w)\<lparr>ch_buf := [], ch_closed := True\<rparr>,
       ccm_worker := WReturned,
       ccm_callers := (ccm_callers w)
         [i := (ccm_callers w ! i)\<lparr>todo := rest,
                results := results (ccm_callers w ! i) @ [R_unit]\<rparr>,
          j := \<lparr>todo = rest', pc = Idle,
                results = results (ccm_callers w ! j) @ [ccm_return v]\<rparr>],
       ccm_trace := ccm_trace w @
         [Closed (Caller i) (ccm_requestCh (ccm w)), Dispatched r, Sent Worker r]\<rparr>"
proof -
  let ?ci = "(ccm_callers w ! i)\<lparr>todo := rest, results := results (ccm_callers w ! i) @ [R_unit]\<rparr>"
  let ?cs1 = "(ccm_callers w)[i := ?ci]"
  from assms(8) have j: "j < length (ccm_callers w)" "pc (ccm_callers w ! j) = Receiving r"
    using receiver_of_Some by blast+
  with assms(6) have ij: "i \<noteq> j" by auto
  from assms(10) have rc: "ccm_reply_chan request = Some r"
    by (rule ccm_dispatch_reply_chan)
  define w1 where "w1 = w\<lparr>ccm_chan := (ccm_chan w)\<lparr>ch_closed := True\<rparr>,
      ccm_callers := ?cs1,
      ccm_trace := ccm_trace w @ [Closed (Caller i) (ccm_requestCh (ccm w))]\<rparr>"
  have s1: "ccm_step M (Caller i) w = Some w1"
    using assms by (simp add: ccm_step_def ccm_caller_step_def Let_def w1_def chan_close_def)
  define w2 where "w2 = w1\<lparr>ccm_chan := (ccm_chan w)\<lparr>ch_buf := [], ch_closed := True\<rparr>,
      ccm_worker := WServe request,
      ccm_trace := ccm_trace w1 @ [Dispatched r]\<rparr>"
  have s2: "ccm_step M Worker w1 = Some w2"
    using assms rc
    by (simp add: ccm_step_def ccm_loopMap_step_def Let_def w1_def w2_def chan_recv_def)
  define w3 where "w3 = w2\<lparr>ccm_heap := (ccm_heap w)(ccm_storage (ccm w) := m'),
      ccm_worker := WReply r v\<rparr>"
  have s3: "ccm_step M Worker w2 = Some w3"
    using assms
    by (simp add: ccm_step_def ccm_loopMap_step_def Let_def w1_def w2_def w3_def)
  have rcv: "receiver_of r (ccm_callers w3) = Some j"
    using assms(5,6,8) by (simp add: w1_def w2_def w3_def receiver_of_same_pc)
  have cj: "ccm_callers w3 ! j = ccm_callers w ! j"
    using ij by (simp add: w1_def w2_def w3_def)
  define w4 where "w4 = w3\<lparr>ccm_worker := WSelect,
      ccm_callers := ?cs1
         [j := \<lparr>todo = rest', pc = Idle, results = results (ccm_callers w ! j) @ [ccm_return v]\<rparr>],
      ccm_trace := ccm_trace w3 @ [Sent Worker r]\<rparr>"
  have s4: "ccm_step M Worker w3 = Some w4"
    using assms(1,9) rcv cj
    by (simp add: ccm_step_def ccm_loopMap_step_def Let_def w4_def caller_update_all)
      (simp add: w1_def w2_def w3_def Let_def caller_update_all)
  define w5 where "w5 = w4\<lparr>ccm_worker := WReturned\<rparr>"
  have s5: "ccm_step M Worker w4 = Some w5"
    using assms(1)
    by (simp add: ccm_step_def ccm_loopMap_step_def Let_def w1_def w2_def w3_def w4_def w5_def
          chan_recv_def)
  have "ccm_run M [Caller i, Worker, Worker, Worker, Worker] w = w5"
    using s1 s2 s3 s4 s5 by simp
  also have "w5 = w\<lparr>ccm_heap := (ccm_heap w)(ccm_storage (ccm w) := m'),
       ccm_chan := (ccm_chan w)\<lparr>ch_buf := [], ch_closed := True\<rparr>,
       ccm_worker := WReturned,
       ccm_callers := (ccm_callers w)
         [i := (ccm_callers w ! i)\<lparr>todo := rest,
                results := results (ccm_callers w ! i) @ [R_unit]\<rparr>,
          j := \<lparr>todo = rest', pc = Idle,
                results = results (ccm_callers w ! j) @ [ccm_return v]\<rparr>],
       ccm_trace := ccm_trace w @
         [Closed (Caller i) (ccm_requestCh (ccm w)), Dispatched r, Sent Worker r]\<rparr>"
    by (simp add: w1_def w2_def w3_def w4_def w5_def)
  finally show ?thesis .
qed

lemma ccm_close_drain_result:
  assumes "ccm_abort w = None" "ccm_worker w = WSelect" "ch_buf (ccm_chan w) = [request]"
    "\<not> ch_closed (ccm_chan w)"
    "i < length (ccm_callers w)" "pc (ccm_callers w ! i) = Idle"
    "todo (ccm_callers w ! i) = ccm_Close # rest"
    "receiver_of r (ccm_callers w) = Some j" "todo (ccm_callers w ! j) = call # rest'"
    "ccm_dispatch M request (ccm_heap w (ccm_storage (ccm w))) = Inr (r, v, m')"
  shows "ccm_worker (ccm_run M [Caller i, Worker, Worker, Worker, Worker] w) = WReturned"
    and "ccm_callers (ccm_run M [Caller i, Worker, Worker, Worker, Worker] w) ! j
        = \<lparr>todo = rest', pc = Idle, results = results (ccm_callers w ! j) @ [ccm_return v]\<rparr>"
    and "ccm_heap (ccm_run M [Caller i, Worker, Worker, Worker, Worker] w)
        = (ccm_heap w)(ccm_storage (ccm w) := m')"
    and "ccm_trace (ccm_run M [Caller i, Worker, Worker, Worker, Worker] w)
        = ccm_trace w @ [Closed (Caller i) (ccm_requestCh (ccm w)), Dispatched r, Sent Worker r]"
    and "ccm_abort (ccm_run M [Caller i, Worker, Worker, Worker, Worker] w) = None"
proof -
  from assms(8) have j: "j < length (ccm_callers w)"
    using receiver_of_Some by blast
  then show "ccm_worker (ccm_run M [Caller i, Worker, Worker, Worker, Worker] w) = WReturned"
    and "ccm_callers (ccm_run M [Caller i, Worker, Worker, Worker, Worker] w) ! j
        = \<lparr>todo = rest', pc = Idle, results = results (ccm_callers w ! j) @ [ccm_return v]\<rparr>"
    and "ccm_heap (ccm_run M [Caller i, Worker, Worker, Worker, Worker] w)
        = (ccm_heap w)(ccm_storage (ccm w) := m')"
    and "ccm_trace (ccm_run M [Caller i, Worker, Worker, Worker, Worker] w)
        = ccm_trace w @ [Closed (Caller i) (ccm_requestCh (ccm w)), Dispatched r, Sent Worker r]"
    and "ccm_abort (ccm_run M [Caller i, Worker, Worker, Worker, Worker] w) = None"
    unfolding ccm_close_drain [OF assms] using assms(1) by simp_all
qed

lemma ccm_returned_none_waiting:
  assumes "ccm_count_inv w" "ccm_worker w = WReturned"
  shows "ch_buf (ccm_chan w) = [] \<and> (\<forall>c \<in> set (ccm_callers w). \<forall>r. pc c \<noteq> Receiving r)"
proof -
  from assms have b: "ch_buf (ccm_chan w) = []"
    and ci: "count_inv ccm_reply_chan 1 (map pc (ccm_callers w)) (ccm_worker w)
      (ch_buf (ccm_chan w)) (length (ccm_made w)) (ccm_trace w)"
    by (auto simp: ccm_count_inv_def)
  have "pc c \<noteq> Receiving r" if "c \<in> set (ccm_callers w)" for c r
  proof
    assume "pc c = Receiving r"
    with that have "0 < receivers r (map pc (ccm_callers w))"
      by (auto simp: receivers_def filter_empty_conv)
    moreover from count_invD(4) [OF ci, of r] have "receivers r (map pc (ccm_callers w)) = 0"
      by (simp add: chan_ok_def in_buf_def b assms(2))
    ultimately show False by simp
  qed
  with b show ?thesis by blast
qed


section \<open>Any number of callers of the uniform-message coordinator: the invariant\<close>

lemma filter_le_one_unique:
  "length (filter P xs) \<le> 1 \<Longrightarrow> i < length xs \<Longrightarrow> j < length xs \<Longrightarrow>
     P (xs ! i) \<Longrightarrow> P (xs ! j) \<Longrightarrow> i = j"
proof (induction xs arbitrary: i j)
  case Nil
  then show ?case by simp
next
  case (Cons x xs)
  have ne: "P (xs ! n) \<Longrightarrow> n < length xs \<Longrightarrow> filter P xs \<noteq> []" for n
    by (auto simp: filter_empty_conv)
  show ?case
  proof (cases i)
    case 0
    with Cons.prems ne show ?thesis
      by (cases j) (auto split: if_splits)
  next
    case (Suc i')
    with Cons.prems ne Cons.IH [of i'] show ?thesis
      by (cases j) (auto split: if_splits)
  qed
qed

lemma ccm_receiver_unique:
  assumes "ccm_count_inv w" "i < length (ccm_callers w)" "j < length (ccm_callers w)"
    "pc (ccm_callers w ! i) = Receiving r" "pc (ccm_callers w ! j) = Receiving r"
  shows "i = j"
proof -
  from assms(1) have "chan_ok ccm_reply_chan 1 (map pc (ccm_callers w)) (ccm_worker w)
      (ch_buf (ccm_chan w)) (length (ccm_made w)) (ccm_trace w) r"
    by (simp add: ccm_count_inv_def count_inv_def)
  then have "length (filter (\<lambda>p. p = Receiving r) (map pc (ccm_callers w))) \<le> 1"
    by (simp add: chan_ok_def receivers_def)
  from filter_le_one_unique [OF this, of i j] assms(2-5) show ?thesis by simp
qed

lemma ccm_caller_ok_buf_mono:
  "ccm_caller_ok M wk buf P c \<Longrightarrow> set buf \<subseteq> set buf' \<Longrightarrow> ccm_caller_ok M wk buf' P c"
  by (cases "pc c") (auto simp: ccm_caller_ok_def)

lemma ccm_caller_ok_not_receiving:
  "(\<And>r. pc c \<noteq> Receiving r) \<Longrightarrow> ccm_caller_ok M wk buf P c \<Longrightarrow> ccm_caller_ok M wk' buf' P c"
  by (cases "pc c") (auto simp: ccm_caller_ok_def)

lemma ccm_hist_init: "ccm_hist_inv M progs (NewChannelConcurrentMap st h progs)"
proof -
  have "ccm_count_inv (NewChannelConcurrentMap st h progs :: ('a, 'b, 'c) ccm_world)"
    by (rule ccm_count_init)
  then show ?thesis
    by (auto simp: ccm_hist_inv_def NewChannelConcurrentMap_def ccm_caller_ok_def)
qed

lemma ccm_hist_step:
  assumes "ccm_step M t w = Some w'" "ccm_hist_inv M progs w"
  shows "ccm_hist_inv M progs w'"
proof -
  from assms(2) have cnt: "ccm_count_inv w" and len: "length (ccm_callers w) = length progs"
    and ok: "\<And>i. i < length progs \<Longrightarrow>
      ccm_caller_ok M (ccm_worker w) (ch_buf (ccm_chan w)) (progs ! i) (ccm_callers w ! i)"
    by (auto simp: ccm_hist_inv_def)
  from assms(1) cnt have cnt': "ccm_count_inv w'"
    by (rule ccm_count_step)
  have goal: "ccm_hist_inv M progs w'"
    if "length (ccm_callers w') = length progs"
      "\<And>k. k < length progs \<Longrightarrow>
        ccm_caller_ok M (ccm_worker w') (ch_buf (ccm_chan w')) (progs ! k) (ccm_callers w' ! k)"
    using that cnt' by (simp add: ccm_hist_inv_def)
  from assms(1) show ?thesis
  proof (cases rule: ccm_step_cases)
    case (close_panic i rest)
    with ok len show ?thesis by (intro goal) auto
  next
    case (close i rest)
    show ?thesis
    proof (rule goal)
      show "length (ccm_callers w') = length progs" using close len by simp
      fix k assume k: "k < length progs"
      show "ccm_caller_ok M (ccm_worker w') (ch_buf (ccm_chan w')) (progs ! k) (ccm_callers w' ! k)"
      proof (cases "k = i")
        case True
        from ok [OF k] True close(4,5) have
          td: "drop (length (results (ccm_callers w ! i))) (progs ! i) = ccm_Close # rest"
          by (auto simp: ccm_caller_ok_def)
        from drop_eq_ConsD [OF td] have
          d: "length (results (ccm_callers w ! i)) < length (progs ! i)"
             "progs ! i ! length (results (ccm_callers w ! i)) = ccm_Close"
             "drop (Suc (length (results (ccm_callers w ! i)))) (progs ! i) = rest"
          by auto
        have "\<exists>m. (results (ccm_callers w ! i) @ [R_unit]) ! n
                 = fst (ccm_apply M (progs ! i ! n) m)"
          if "n < Suc (length (results (ccm_callers w ! i)))" for n
        proof (cases "n = length (results (ccm_callers w ! i))")
          case True
          with d show ?thesis by auto
        next
          case False
          with that ok [OF k] \<open>k = i\<close> show ?thesis
            by (auto simp: ccm_caller_ok_def nth_append)
        qed
        with True close d len k show ?thesis
          by (auto simp: ccm_caller_ok_def)
      next
        case False
        with ok [OF k] close show ?thesis by simp
      qed
    qed
  next
    case (make i call rest request)
    show ?thesis
    proof (rule goal)
      show "length (ccm_callers w') = length progs" using make len by simp
      fix k assume k: "k < length progs"
      show "ccm_caller_ok M (ccm_worker w') (ch_buf (ccm_chan w')) (progs ! k) (ccm_callers w' ! k)"
      proof (cases "k = i")
        case True
        with ok [OF k] make show ?thesis
          by (auto simp: ccm_caller_ok_def)
      next
        case False
        with ok [OF k] make show ?thesis by simp
      qed
    qed
  next
    case (send_panic i request)
    with ok len show ?thesis by (intro goal) auto
  next
    case (send i request r)
    show ?thesis
    proof (rule goal)
      show "length (ccm_callers w') = length progs" using send len by simp
      fix k assume k: "k < length progs"
      show "ccm_caller_ok M (ccm_worker w') (ch_buf (ccm_chan w')) (progs ! k) (ccm_callers w' ! k)"
      proof (cases "k = i")
        case True
        from ok [OF k] True send(4) obtain call rest r' where
          c: "todo (ccm_callers w ! i) = call # rest" "ccm_request call r' = Some request"
          by (auto simp: ccm_caller_ok_def)
        with send(7) have "r' = r"
          using ccm_request_reply_chan by fastforce
        with c ok [OF k] True send show ?thesis
          by (auto simp: ccm_caller_ok_def)
      next
        case False
        have "ccm_caller_ok M (ccm_worker w) (ch_buf (ccm_chan w) @ [request])
            (progs ! k) (ccm_callers w ! k)"
          by (rule ccm_caller_ok_buf_mono [OF ok [OF k]]) auto
        with False send show ?thesis by simp
      qed
    qed
  next
    case recv_closed
    have "ccm_caller_ok M WReturned (ch_buf (ccm_chan w)) (progs ! k) (ccm_callers w ! k)"
      if k: "k < length progs" for k
      using ok [OF k] recv_closed(3,4)
      by (cases "pc (ccm_callers w ! k)") (auto simp: ccm_caller_ok_def)
    with recv_closed len show ?thesis by (intro goal) auto
  next
    case (recv request rest)
    have "ccm_caller_ok M (WServe request) rest (progs ! k) (ccm_callers w ! k)"
      if k: "k < length progs" for k
      using ok [OF k] recv(3,4)
      by (cases "pc (ccm_callers w ! k)") (auto simp: ccm_caller_ok_def)
    with recv len show ?thesis by (intro goal) auto
  next
    case (unrecognized ty)
    with ok len show ?thesis by (intro goal) auto
  next
    case (serve request r v m')
    have "ccm_caller_ok M (WReply r v) (ch_buf (ccm_chan w)) (progs ! k) (ccm_callers w ! k)"
      if k: "k < length progs" for k
    proof (cases "pc (ccm_callers w ! k)")
      case (Receiving r')
      with ok [OF k] serve(3) obtain call rest where
        c: "todo (ccm_callers w ! k) = call # rest"
        and alt: "(\<exists>rq \<in> set (ch_buf (ccm_chan w)). ccm_request call r' = Some rq)
           \<or> ccm_request call r' = Some request"
        by (auto simp: ccm_caller_ok_def)
      from alt show ?thesis
      proof
        assume "\<exists>rq \<in> set (ch_buf (ccm_chan w)). ccm_request call r' = Some rq"
        with ok [OF k] Receiving c show ?thesis
          by (auto simp: ccm_caller_ok_def)
      next
        assume rq: "ccm_request call r' = Some request"
        from ccm_dispatch_request [OF rq, of M "ccm_heap w (ccm_storage (ccm w))"] serve(5)
        have "r' = r"
          "ccm_return v = fst (ccm_apply M call (ccm_heap w (ccm_storage (ccm w))))"
          by auto
        with ok [OF k] Receiving c show ?thesis
          by (auto simp: ccm_caller_ok_def)
      qed
    qed (use ok [OF k] in \<open>auto simp: ccm_caller_ok_def\<close>)
    with serve len show ?thesis by (intro goal) auto
  next
    case (reply r v j call rest)
    from reply(5) len have j: "j < length progs" by simp
    show ?thesis
    proof (rule goal)
      show "length (ccm_callers w') = length progs" using reply len by simp
      fix k assume k: "k < length progs"
      show "ccm_caller_ok M (ccm_worker w') (ch_buf (ccm_chan w')) (progs ! k) (ccm_callers w' ! k)"
      proof (cases "k = j")
        case True
        from cnt have "chan_ok ccm_reply_chan 1 (map pc (ccm_callers w)) (ccm_worker w)
            (ch_buf (ccm_chan w)) (length (ccm_made w)) (ccm_trace w) r"
          by (simp add: ccm_count_inv_def count_inv_def)
        then have "receivers r (map pc (ccm_callers w))
            = in_service ccm_reply_chan r (ccm_worker w)
              + in_buf ccm_reply_chan r (ch_buf (ccm_chan w))"
          and "receivers r (map pc (ccm_callers w)) \<le> 1"
          unfolding chan_ok_def by linarith+
        with reply(3) have nb: "in_buf ccm_reply_chan r (ch_buf (ccm_chan w)) = 0"
          by simp
        have nobuf: "ccm_request call r \<noteq> Some rq" if "rq \<in> set (ch_buf (ccm_chan w))" for rq
        proof
          assume "ccm_request call r = Some rq"
          then have "ccm_reply_chan rq = Some r" by (rule ccm_request_reply_chan)
          with that have "filter (\<lambda>msg. ccm_reply_chan msg = Some r) (ch_buf (ccm_chan w)) \<noteq> []"
            by (auto simp: filter_empty_conv)
          with nb show False by (simp add: in_buf_def)
        qed
        from ok [OF j] reply(3,6,7) nobuf obtain m where
          m: "ccm_return v = fst (ccm_apply M call m)"
          and td: "drop (length (results (ccm_callers w ! j))) (progs ! j) = call # rest"
          by (auto simp: ccm_caller_ok_def)
        from drop_eq_ConsD [OF td] have
          d: "length (results (ccm_callers w ! j)) < length (progs ! j)"
             "progs ! j ! length (results (ccm_callers w ! j)) = call"
             "drop (Suc (length (results (ccm_callers w ! j)))) (progs ! j) = rest"
          by auto
        have "\<exists>m. (results (ccm_callers w ! j) @ [ccm_return v]) ! n
                 = fst (ccm_apply M (progs ! j ! n) m)"
          if "n < Suc (length (results (ccm_callers w ! j)))" for n
        proof (cases "n = length (results (ccm_callers w ! j))")
          case True
          with m d show ?thesis by auto
        next
          case False
          with that ok [OF j] show ?thesis
            by (auto simp: ccm_caller_ok_def nth_append)
        qed
        with True reply d len j show ?thesis
          by (auto simp: ccm_caller_ok_def)
      next
        case False
        have "pc (ccm_callers w ! k) \<noteq> Receiving r"
          using ccm_receiver_unique [OF cnt _ _ _ reply(6), of k] k len j False by auto
        with ok [OF k] reply(3) have
          "ccm_caller_ok M WSelect (ch_buf (ccm_chan w)) (progs ! k) (ccm_callers w ! k)"
          by (cases "pc (ccm_callers w ! k)") (auto simp: ccm_caller_ok_def)
        with False reply show ?thesis by simp
      qed
    qed
  qed
qed

lemma ccm_hist_run:
  "ccm_hist_inv M progs w \<Longrightarrow> ccm_hist_inv M progs (ccm_run M sched w)"
proof (induction sched arbitrary: w)
  case Nil
  then show ?case by simp
next
  case (Cons t ts)
  show ?case
  proof (cases "ccm_step M t w")
    case None
    with Cons show ?thesis by simp
  next
    case (Some w')
    with Cons.prems have "ccm_hist_inv M progs w'"
      by (intro ccm_hist_step [of M t w w' progs])
    with Cons.IH [of w'] Some show ?thesis by simp
  qed
qed

section \<open>Replies sent and calls returned\<close>










section \<open>Every call that returned was served\<close>

lemma cm_was_served_snoc:
  "cm_was_served M w0 sched P a k r res \<Longrightarrow> cm_was_served M w0 (sched @ [t]) P a k r res"
  unfolding cm_was_served_def by (metis append_assoc)

lemma cm_was_served_now:
  "cm_served_at M (cm_run M sched w0) P a k r res \<Longrightarrow>
     cm_was_served M w0 (sched @ [t]) P a k r res"
  unfolding cm_was_served_def by blast

lemma cm_served_inv_snoc:
  "cm_served_inv M w0 progs sched w \<Longrightarrow> cm_served_inv M w0 progs (sched @ [t]) w"
  unfolding cm_served_inv_def by (meson cm_was_served_snoc)

lemma cm_served_step:
  assumes s: "cm_step M t w = Some w'" and w: "w = cm_run M sched w0"
    and h: "cm_hist_inv M st progs w" and c: "cm_count_inv w"
    and i: "cm_served_inv M w0 progs sched w"
  shows "cm_served_inv M w0 progs (sched @ [t]) w'"
proof -
  note i' = cm_served_inv_snoc [OF i, of t]
  from h have len: "length (cm_callers w) = length progs" and st: "cm_storage (cm w) = st"
    by (simp_all add: cm_hist_inv_def)
  from s show ?thesis
  proof (cases rule: cm_step_cases)
    case (make i call rest)
    have "\<And>a. results (cm_callers w' ! a) = results (cm_callers w ! a)"
      using make(2) by (simp add: make(5) nth_list_update)
    moreover have "\<And>j r. pc (cm_callers w' ! j) = Receiving r \<Longrightarrow>
        cm_callers w' ! j = cm_callers w ! j"
      using make(2) by (simp add: make(5) nth_list_update split: if_splits)
    moreover have "cm_worker w' = cm_worker w"
      by (simp add: make(5))
    ultimately show ?thesis
      using i' unfolding cm_served_inv_def by metis
  next
    case (send i msg)
    have "\<And>a. results (cm_callers w' ! a) = results (cm_callers w ! a)"
      using send(2) by (simp add: send(5) nth_list_update)
    moreover have "cm_worker w' = WServe msg"
      by (simp add: send(5))
    ultimately show ?thesis
      using i' unfolding cm_served_inv_def by simp
  next
    case (serve msg v m')
    have cs: "cm_callers w' = cm_callers w" and wk: "cm_worker w' = WReply (cm_reply_chan msg) v"
      by (simp_all add: serve(4))
    have "cm_was_served M w0 (sched @ [t]) (progs ! j) j (length (results (cm_callers w ! j)))
        (cm_reply_chan msg) (cm_return call v)"
      if j: "j < length progs" and p: "pc (cm_callers w ! j) = Receiving (cm_reply_chan msg)"
        and td: "todo (cm_callers w ! j) = call # rest" for j call rest
    proof -
      let ?r = "cm_reply_chan msg"
      from h j have ok: "cm_caller_ok M st (cm_worker w) (progs ! j) (cm_callers w ! j)"
        by (simp add: cm_hist_inv_def)
      from ok p td serve(2) have m: "msg = cm_request call ?r"
        by (auto simp: cm_caller_ok_def)
      from ok td have "drop (length (results (cm_callers w ! j))) (progs ! j) = call # rest"
        by (simp add: cm_caller_ok_def)
      from drop_eq_ConsD [OF this]
      have pk: "progs ! j ! length (results (cm_callers w ! j)) = call" by simp
      from j len p have "receiver_of ?r (cm_callers w) \<noteq> None"
        unfolding receiver_of_None by (metis nth_mem)
      then obtain j' where j': "receiver_of ?r (cm_callers w) = Some j'" by auto
      from receiver_of_Some [OF j'] len have "j' < length progs"
        "pc (cm_callers w ! j') = Receiving ?r" by simp_all
      with h j p have "j' = j"
        unfolding cm_hist_inv_def by blast
      with j' have rc: "receiver_of ?r (cm_callers w) = Some j" by simp
      from cm_select_request [of call ?r M "cm w" "cm_heap w (cm_storage (cm w))"]
      obtain v0 where
        "cm_select_case M (cm w) (cm_request call ?r) (cm_heap w (cm_storage (cm w)))
           = (?r, v0, snd (cm_apply M (cm_storage (cm w)) call (cm_heap w (cm_storage (cm w)))))"
        and r0: "cm_return call v0
           = fst (cm_apply M (cm_storage (cm w)) call (cm_heap w (cm_storage (cm w))))"
        by blast
      with serve(3) m have "v0 = v" by simp
      with r0 have "cm_return call v
           = fst (cm_apply M (cm_storage (cm w)) call (cm_heap w (cm_storage (cm w))))"
        by simp
      with serve(2) m rc pk have "cm_served_at M w (progs ! j) j
          (length (results (cm_callers w ! j))) ?r (cm_return call v)"
        unfolding cm_served_at_def by simp
      then show ?thesis
        unfolding w by (rule cm_was_served_now)
    qed
    then show ?thesis
      using i' unfolding cm_served_inv_def cs wk by auto
  next
    case (reply r v j call rest)
    from reply(4) len have jl: "j < length progs" by simp
    have wk: "cm_worker w' = WSelect"
      by (simp add: reply(7))
    have oth: "\<And>a. a \<noteq> j \<Longrightarrow> cm_callers w' ! a = cm_callers w ! a"
      by (simp add: reply(7))
    have rj: "results (cm_callers w' ! j) = results (cm_callers w ! j) @ [cm_return call v]"
      using reply(4) by (simp add: reply(7))
    from i reply(2,5,6) jl
    have new: "cm_was_served M w0 sched (progs ! j) j (length (results (cm_callers w ! j))) r
          (cm_return call v)"
      unfolding cm_served_inv_def by blast
    have "\<exists>r. cm_was_served M w0 (sched @ [t]) (progs ! a) a k r
        (results (cm_callers w' ! a) ! k)"
      if a: "a < length progs" and k: "k < length (results (cm_callers w' ! a))" for a k
    proof (cases "a = j \<and> k = length (results (cm_callers w ! j))")
      case True
      with new rj show ?thesis
        by (auto intro: cm_was_served_snoc)
    next
      case False
      with k rj oth have k': "k < length (results (cm_callers w ! a))"
        by (cases "a = j") auto
      with rj oth have "results (cm_callers w' ! a) ! k = results (cm_callers w ! a) ! k"
        by (cases "a = j") (auto simp: nth_append)
      with i' a k' show ?thesis
        unfolding cm_served_inv_def by metis
    qed
    then show ?thesis
      unfolding cm_served_inv_def wk by simp
  qed
qed

lemma cm_served_run:
  "cm_served_inv M (NewConcurrentMap st h progs) progs sched
     (cm_run M sched (NewConcurrentMap st h progs))"
proof (induction sched rule: rev_induct)
  case Nil
  show ?case
    by (simp add: cm_served_inv_def NewConcurrentMap_def)
next
  case (snoc t sched)
  let ?w = "cm_run M sched (NewConcurrentMap st h progs)"
  have h: "cm_hist_inv M st progs ?w"
    by (intro cm_hist_run cm_hist_init)
  have c: "cm_count_inv ?w"
    by (intro cm_count_run cm_count_init)
  show ?case
  proof (cases "cm_step M t ?w")
    case None
    with cm_served_inv_snoc [OF snoc] show ?thesis
      by (simp add: cm_run_append)
  next
    case (Some w')
    from cm_served_step [OF Some refl h c snoc] Some show ?thesis
      by (simp add: cm_run_append)
  qed
qed

lemma ccm_was_served_snoc:
  "ccm_was_served M w0 sched P a k r res \<Longrightarrow> ccm_was_served M w0 (sched @ [t]) P a k r res"
  unfolding ccm_was_served_def by (metis append_assoc)

lemma ccm_was_served_now:
  "ccm_served_at M (ccm_run M sched w0) P a k r res \<Longrightarrow>
     ccm_was_served M w0 (sched @ [t]) P a k r res"
  unfolding ccm_was_served_def by blast

lemma ccm_served_inv_snoc:
  "ccm_served_inv M w0 progs sched w \<Longrightarrow> ccm_served_inv M w0 progs (sched @ [t]) w"
  unfolding ccm_served_inv_def by (meson ccm_was_served_snoc)

lemma ccm_served_inv_same:
  assumes "ccm_served_inv M w0 progs sched w"
    and "\<And>a. a < length progs \<Longrightarrow> results (ccm_callers w' ! a) = results (ccm_callers w ! a)"
    and "\<And>j r v. j < length progs \<Longrightarrow> ccm_worker w' = WReply r v \<Longrightarrow>
       pc (ccm_callers w' ! j) = Receiving r \<Longrightarrow>
       ccm_worker w = WReply r v \<and> ccm_callers w' ! j = ccm_callers w ! j"
  shows "ccm_served_inv M w0 progs sched w'"
  unfolding ccm_served_inv_def
proof (intro conjI allI impI)
  fix a k
  assume "a < length progs" "k < length (results (ccm_callers w' ! a))"
    "progs ! a ! k \<noteq> ccm_Close"
  with assms(1,2) show "\<exists>r. ccm_was_served M w0 sched (progs ! a) a k r
      (results (ccm_callers w' ! a) ! k)"
    unfolding ccm_served_inv_def by simp
next
  fix r v j call rest
  assume a: "ccm_worker w' = WReply r v \<and> j < length progs
      \<and> pc (ccm_callers w' ! j) = Receiving r \<and> todo (ccm_callers w' ! j) = call # rest"
  with assms(3) [of j r v] have "ccm_worker w = WReply r v"
    "ccm_callers w' ! j = ccm_callers w ! j" by simp_all
  with a assms(1) show "ccm_was_served M w0 sched (progs ! j) j
      (length (results (ccm_callers w' ! j))) r (ccm_return v)"
    unfolding ccm_served_inv_def by simp
qed

lemma in_buf_zero: "in_buf rc r buf = 0 \<Longrightarrow> x \<in> set buf \<Longrightarrow> rc x \<noteq> Some r"
  by (auto simp: in_buf_def filter_empty_conv)

lemma ccm_served_step:
  assumes s: "ccm_step M t w = Some w'" and w: "w = ccm_run M sched w0"
    and h: "ccm_hist_inv M progs w"
    and i: "ccm_served_inv M w0 progs sched w"
  shows "ccm_served_inv M w0 progs (sched @ [t]) w'"
proof -
  note i' = ccm_served_inv_snoc [OF i, of t]
  note h' = ccm_hist_step [OF s h]
  from h have len: "length (ccm_callers w) = length progs" and cnt: "ccm_count_inv w"
    by (simp_all add: ccm_hist_inv_def)
  from h' have cnt': "ccm_count_inv w'"
    by (simp_all add: ccm_hist_inv_def)
  have ok: "\<And>i. i < length progs \<Longrightarrow>
      ccm_caller_ok M (ccm_worker w) (ch_buf (ccm_chan w)) (progs ! i) (ccm_callers w ! i)"
    using h by (auto simp: ccm_hist_inv_def)
  have chan: "\<And>r. chan_ok ccm_reply_chan 1 (map pc (ccm_callers w)) (ccm_worker w)
      (ch_buf (ccm_chan w)) (length (ccm_made w)) (ccm_trace w) r"
    using cnt by (simp add: ccm_count_inv_def count_inv_def)
  have chan': "\<And>r. chan_ok ccm_reply_chan 1 (map pc (ccm_callers w')) (ccm_worker w')
      (ch_buf (ccm_chan w')) (length (ccm_made w')) (ccm_trace w') r"
    using cnt' by (simp add: ccm_count_inv_def count_inv_def)
  from s show ?thesis
  proof (cases rule: ccm_step_cases)
    case (close_panic i rest)
    show ?thesis
      by (rule ccm_served_inv_same [OF i']) (simp_all add: close_panic(7))
  next
    case (close i rest)
    have wk: "ccm_worker w' = ccm_worker w"
      by (simp add: close(7))
    have oth: "\<And>a. a \<noteq> i \<Longrightarrow> ccm_callers w' ! a = ccm_callers w ! a"
      by (simp add: close(7))
    have ci: "results (ccm_callers w' ! i) = results (ccm_callers w ! i) @ [R_unit]"
      "pc (ccm_callers w' ! i) = Idle"
      using close(3,4) by (simp_all add: close(7))
    from close(3) len have il: "i < length progs" by simp
    from ok [OF il] close(5)
    have "drop (length (results (ccm_callers w ! i))) (progs ! i) = ccm_Close # rest"
      by (simp add: ccm_caller_ok_def)
    from drop_eq_ConsD [OF this]
    have pk: "progs ! i ! length (results (ccm_callers w ! i)) = ccm_Close" by simp
    show ?thesis
      unfolding ccm_served_inv_def
    proof (intro conjI allI impI)
      fix a k
      assume a: "a < length progs" and k: "k < length (results (ccm_callers w' ! a))"
        and nc: "progs ! a ! k \<noteq> ccm_Close"
      from nc pk have "\<not> (a = i \<and> k = length (results (ccm_callers w ! i)))" by auto
      with k ci oth have k': "k < length (results (ccm_callers w ! a))"
        by (cases "a = i") auto
      with ci oth have "results (ccm_callers w' ! a) ! k = results (ccm_callers w ! a) ! k"
        by (cases "a = i") (auto simp: nth_append)
      with i' a k' nc show "\<exists>r. ccm_was_served M w0 (sched @ [t]) (progs ! a) a k r
          (results (ccm_callers w' ! a) ! k)"
        unfolding ccm_served_inv_def by metis
    next
      fix r v j call rest'
      assume a: "ccm_worker w' = WReply r v \<and> j < length progs
        \<and> pc (ccm_callers w' ! j) = Receiving r \<and> todo (ccm_callers w' ! j) = call # rest'"
      with ci have "j \<noteq> i" by auto
      with oth have "ccm_callers w' ! j = ccm_callers w ! j" by simp
      with a wk i' show "ccm_was_served M w0 (sched @ [t]) (progs ! j) j
          (length (results (ccm_callers w' ! j))) r (ccm_return v)"
        unfolding ccm_served_inv_def by simp
    qed
  next
    case (make i call rest request)
    show ?thesis
    proof (rule ccm_served_inv_same [OF i'])
      fix a
      show "results (ccm_callers w' ! a) = results (ccm_callers w ! a)"
        using make(3) by (simp add: make(7) nth_list_update)
    next
      fix j r v
      assume "ccm_worker w' = WReply r v" "pc (ccm_callers w' ! j) = Receiving r"
      then show "ccm_worker w = WReply r v \<and> ccm_callers w' ! j = ccm_callers w ! j"
        using make(3) by (simp add: make(7) nth_list_update split: if_splits)
    qed
  next
    case (send_panic i request)
    show ?thesis
      by (rule ccm_served_inv_same [OF i']) (simp_all add: send_panic(6))
  next
    case (send i request r0)
    have wk: "ccm_worker w' = ccm_worker w"
      by (simp add: send(8))
    have bf: "ch_buf (ccm_chan w') = ch_buf (ccm_chan w) @ [request]"
      by (simp add: send(8))
    have pi: "pc (ccm_callers w' ! i) = Receiving r0"
      using send(3) by (simp add: send(8))
    show ?thesis
    proof (rule ccm_served_inv_same [OF i'])
      fix a
      show "results (ccm_callers w' ! a) = results (ccm_callers w ! a)"
        using send(3) by (simp add: send(8) nth_list_update)
    next
      fix j r v
      assume a: "ccm_worker w' = WReply r v" "pc (ccm_callers w' ! j) = Receiving r"
      have "j \<noteq> i"
      proof
        assume "j = i"
        with a(2) pi have "r = r0" by simp
        from chan' [of r]
        have e: "receivers r (map pc (ccm_callers w'))
            = in_service ccm_reply_chan r (ccm_worker w')
              + in_buf ccm_reply_chan r (ch_buf (ccm_chan w'))"
          and b: "count_list (ccm_trace w') (Sent Worker r) + receivers r (map pc (ccm_callers w'))
              + senders ccm_reply_chan r (map pc (ccm_callers w')) \<le> 1"
          unfolding chan_ok_def by linarith+
        from a(1) have "in_service ccm_reply_chan r (ccm_worker w') = 1" by simp
        moreover from bf send(7) \<open>r = r0\<close>
        have "1 \<le> in_buf ccm_reply_chan r (ch_buf (ccm_chan w'))"
          by (simp add: in_buf_def)
        ultimately show False
          using e b by linarith
      qed
      then have "ccm_callers w' ! j = ccm_callers w ! j"
        by (simp add: send(8))
      with a(1) wk show "ccm_worker w = WReply r v \<and> ccm_callers w' ! j = ccm_callers w ! j"
        by simp
    qed
  next
    case recv_closed
    show ?thesis
      by (rule ccm_served_inv_same [OF i']) (simp_all add: recv_closed(6))
  next
    case (recv request rest)
    show ?thesis
      by (rule ccm_served_inv_same [OF i']) (simp_all add: recv(5))
  next
    case (unrecognized ty)
    show ?thesis
      by (rule ccm_served_inv_same [OF i']) (simp_all add: unrecognized(4) unrecognized(3))
  next
    case (serve request r v m')
    have cs: "ccm_callers w' = ccm_callers w" and wk: "ccm_worker w' = WReply r v"
      by (simp_all add: serve(6))
    from chan [of r] serve(3,4) have nb: "in_buf ccm_reply_chan r (ch_buf (ccm_chan w)) = 0"
      unfolding chan_ok_def by simp
    have "ccm_was_served M w0 (sched @ [t]) (progs ! j) j (length (results (ccm_callers w ! j)))
        r (ccm_return v)"
      if j: "j < length progs" and p: "pc (ccm_callers w ! j) = Receiving r"
        and td: "todo (ccm_callers w ! j) = call # rest" for j call rest
    proof -
      have "ccm_request call r \<noteq> Some x" if "x \<in> set (ch_buf (ccm_chan w))" for x
        using in_buf_zero [OF nb that] ccm_request_reply_chan [of call r x] by auto
      with ok [OF j] p td serve(3) have m: "ccm_request call r = Some request"
        by (auto simp: ccm_caller_ok_def)
      from ok [OF j] td
      have "drop (length (results (ccm_callers w ! j))) (progs ! j) = call # rest"
        by (simp add: ccm_caller_ok_def)
      from drop_eq_ConsD [OF this]
      have pk: "progs ! j ! length (results (ccm_callers w ! j)) = call" by simp
      from j len p have "receiver_of r (ccm_callers w) \<noteq> None"
        unfolding receiver_of_None by (metis nth_mem)
      then obtain j' where j': "receiver_of r (ccm_callers w) = Some j'" by auto
      from receiver_of_Some [OF j'] have "j' < length (ccm_callers w)"
        "pc (ccm_callers w ! j') = Receiving r" by simp_all
      with ccm_receiver_unique [OF cnt, of j' j r] j len p have "j' = j"
        by simp
      with j' have rc: "receiver_of r (ccm_callers w) = Some j" by simp
      from ccm_dispatch_request [OF m, of M "ccm_heap w (ccm_storage (ccm w))"]
      obtain v0 where
        "ccm_dispatch M request (ccm_heap w (ccm_storage (ccm w)))
           = Inr (r, v0, snd (ccm_apply M call (ccm_heap w (ccm_storage (ccm w)))))"
        and r0: "ccm_return v0 = fst (ccm_apply M call (ccm_heap w (ccm_storage (ccm w))))"
        by blast
      with serve(5) have "v0 = v" by simp
      with r0 have "ccm_return v = fst (ccm_apply M call (ccm_heap w (ccm_storage (ccm w))))"
        by simp
      with serve(2,3) m rc pk have "ccm_served_at M w (progs ! j) j
          (length (results (ccm_callers w ! j))) r (ccm_return v)"
        unfolding ccm_served_at_def by simp
      then show ?thesis
        unfolding w by (rule ccm_was_served_now)
    qed
    then show ?thesis
      using i' unfolding ccm_served_inv_def cs wk by auto
  next
    case (reply r v j call rest)
    from reply(5) len have jl: "j < length progs" by simp
    have wk: "ccm_worker w' = WSelect"
      by (simp add: reply(8))
    have oth: "\<And>a. a \<noteq> j \<Longrightarrow> ccm_callers w' ! a = ccm_callers w ! a"
      by (simp add: reply(8))
    have rj: "results (ccm_callers w' ! j) = results (ccm_callers w ! j) @ [ccm_return v]"
      using reply(5) by (simp add: reply(8))
    from i reply(3,6,7) jl
    have new: "ccm_was_served M w0 sched (progs ! j) j (length (results (ccm_callers w ! j))) r
          (ccm_return v)"
      unfolding ccm_served_inv_def by blast
    have "\<exists>r. ccm_was_served M w0 (sched @ [t]) (progs ! a) a k r
        (results (ccm_callers w' ! a) ! k)"
      if a: "a < length progs" and k: "k < length (results (ccm_callers w' ! a))"
        and nc: "progs ! a ! k \<noteq> ccm_Close" for a k
    proof (cases "a = j \<and> k = length (results (ccm_callers w ! j))")
      case True
      with new rj show ?thesis
        by (auto intro: ccm_was_served_snoc)
    next
      case False
      with k rj oth have k': "k < length (results (ccm_callers w ! a))"
        by (cases "a = j") auto
      with rj oth have "results (ccm_callers w' ! a) ! k = results (ccm_callers w ! a) ! k"
        by (cases "a = j") (auto simp: nth_append)
      with i' a k' nc show ?thesis
        unfolding ccm_served_inv_def by metis
    qed
    then show ?thesis
      unfolding ccm_served_inv_def wk by simp
  qed
qed

lemma ccm_served_run:
  "ccm_served_inv M (NewChannelConcurrentMap st h progs) progs sched
     (ccm_run M sched (NewChannelConcurrentMap st h progs))"
proof (induction sched rule: rev_induct)
  case Nil
  show ?case
    by (simp add: ccm_served_inv_def NewChannelConcurrentMap_def)
next
  case (snoc t sched)
  let ?w = "ccm_run M sched (NewChannelConcurrentMap st h progs)"
  have h: "ccm_hist_inv M progs ?w"
    by (intro ccm_hist_run ccm_hist_init)
  show ?case
  proof (cases "ccm_step M t ?w")
    case None
    with ccm_served_inv_snoc [OF snoc] show ?thesis
      by (simp add: ccm_run_append)
  next
    case (Some w')
    from ccm_served_step [OF Some refl h snoc] Some show ?thesis
      by (simp add: ccm_run_append)
  qed
qed

lemma ccm_struct_step: "ccm_step M t w = Some w' \<Longrightarrow> ccm w' = ccm w"
  by (cases rule: ccm_step_cases) auto

lemma ccm_struct_run: "ccm (ccm_run M sched w) = ccm w"
proof (induction sched arbitrary: w)
  case Nil
  show ?case by simp
next
  case (Cons t sched)
  show ?case
    by (cases "ccm_step M t w") (simp_all add: Cons ccm_struct_step)
qed

section \<open>The type switch of the uniform-message worker\<close>

text \<open>
  C3. When the uniform-message worker holds a dequeued value whose type is none of the
  eight request types of the type switch, its next step is the panic
  \<open>Unrecognized req type T\<close>, with \<open>T\<close> the offending type, and the process is aborted: no
  goroutine moves afterwards, so the value is not dropped with the loop going on. When
  the value is one of the eight request types, the step does not panic.
\<close>

theorem ccm_unrecognized_aborts:
  "(ccm_abort w = None \<and> ccm_worker w = WServe request \<and> \<not> ccm_recognized request \<longrightarrow>
      (\<exists>ty. request = otherValue ty \<and>
         ccm_step M Worker w =
           Some (w\<lparr>ccm_abort := Some (Panic (''Unrecognized req type '' @ ty))\<rparr>))
      \<and> (\<forall>w' t. ccm_step M Worker w = Some w' \<longrightarrow> ccm_step M t w' = None))
   \<and> (ccm_abort w = None \<and> ccm_worker w = WServe request \<and> ccm_recognized request \<longrightarrow>
      (\<exists>w'. ccm_step M Worker w = Some w' \<and> ccm_abort w' = None))"
proof (intro conjI impI)
  assume a: "ccm_abort w = None \<and> ccm_worker w = WServe request \<and> \<not> ccm_recognized request"
  then obtain ty where ty: "request = otherValue ty"
    by (cases request) auto
  with a show "\<exists>ty. request = otherValue ty \<and>
      ccm_step M Worker w = Some (w\<lparr>ccm_abort := Some (Panic (''Unrecognized req type '' @ ty))\<rparr>)"
    by (simp add: ccm_step_def ccm_loopMap_step_def)
  from a ty show "\<forall>w' t. ccm_step M Worker w = Some w' \<longrightarrow> ccm_step M t w' = None"
    by (auto simp add: ccm_step_def ccm_loopMap_step_def)
next
  assume a: "ccm_abort w = None \<and> ccm_worker w = WServe request \<and> ccm_recognized request"
  then obtain r v m' where
    "ccm_dispatch M request (ccm_heap w (ccm_storage (ccm w))) = Inr (r, v, m')"
    using ccm_dispatch_recognized [of request M "ccm_heap w (ccm_storage (ccm w))"] by blast
  with a show "\<exists>w'. ccm_step M Worker w = Some w' \<and> ccm_abort w' = None"
    by (simp add: ccm_step_def ccm_loopMap_step_def)
qed

theorem ccm_unrecognized_aborts_witness:
  "let w = (NewChannelConcurrentMap 0 (\<lambda>a. []) [])\<lparr>ccm_worker := WServe (otherValue ''int'')\<rparr>;
       w2 = (NewChannelConcurrentMap 0 (\<lambda>a. []) [])\<lparr>ccm_worker := WServe (getRequest ''a'' 1)\<rparr>
   in ccm_abort w = None \<and> ccm_worker w = WServe (otherValue ''int'')
      \<and> \<not> ccm_recognized (otherValue ''int'' :: (string, int) ccm_message)
      \<and> ccm_step demo_ccm_Map Worker w =
          Some (w\<lparr>ccm_abort := Some (Panic ''Unrecognized req type int'')\<rparr>)
      \<and> ccm_step demo_ccm_Map (Caller 0)
          (w\<lparr>ccm_abort := Some (Panic ''Unrecognized req type int'')\<rparr>) = None
      \<and> ccm_abort w2 = None \<and> ccm_recognized (getRequest ''a'' 1 :: (string, int) ccm_message)
      \<and> (\<exists>w'. ccm_step demo_ccm_Map Worker w2 = Some w' \<and> ccm_abort w' = None)"
  using ccm_unrecognized_aborts
      [of "(NewChannelConcurrentMap 0 (\<lambda>a. []) [])\<lparr>ccm_worker := WServe (otherValue ''int'')\<rparr>"
          "otherValue ''int''" demo_ccm_Map]
    ccm_unrecognized_aborts
      [of "(NewChannelConcurrentMap 0 (\<lambda>a. []) [])\<lparr>ccm_worker := WServe (getRequest ''a'' 1)\<rparr>"
          "getRequest ''a'' 1" demo_ccm_Map]
  by (simp add: Let_def NewChannelConcurrentMap_def make_chan_def ccm_step_def)

section \<open>Closing twice\<close>

text \<open>
  C8. \<open>Close()\<close> is not idempotent. A caller whose next two calls are \<open>Close()\<close>, on a
  coordinator whose channel is still open: the first call closes the channel and
  returns, the second panics with \<open>close of closed channel\<close> and aborts the process. And
  whoever closed the channel before, a \<open>Close()\<close> on a closed channel panics so.
\<close>

theorem ccm_Close_twice_panics:
  "(ccm_abort w = None \<and> i < length (ccm_callers w) \<and> pc (ccm_callers w ! i) = Idle
      \<and> todo (ccm_callers w ! i) = ccm_Close # ccm_Close # rest
      \<and> \<not> ch_closed (ccm_chan w) \<longrightarrow>
    (\<exists>w1 w2. ccm_step M (Caller i) w = Some w1 \<and> ccm_abort w1 = None
        \<and> ch_closed (ccm_chan w1)
        \<and> ccm_step M (Caller i) w1 = Some w2
        \<and> ccm_abort w2 = Some (Panic ''close of closed channel'')
        \<and> (\<forall>t. ccm_step M t w2 = None)))
   \<and> (ccm_abort w = None \<and> i < length (ccm_callers w) \<and> pc (ccm_callers w ! i) = Idle
      \<and> todo (ccm_callers w ! i) = ccm_Close # rest' \<and> ch_closed (ccm_chan w) \<longrightarrow>
      ccm_step M (Caller i) w = Some (w\<lparr>ccm_abort := Some (Panic ''close of closed channel'')\<rparr>))"
  by (auto simp add: ccm_step_def ccm_caller_step_def chan_close_def Let_def)

theorem ccm_Close_twice_panics_witness:
  "(ccm_abort demo_close_twice = None \<and> 0 < length (ccm_callers demo_close_twice)
      \<and> pc (ccm_callers demo_close_twice ! 0) = Idle
      \<and> todo (ccm_callers demo_close_twice ! 0) = ccm_Close # ccm_Close # []
      \<and> \<not> ch_closed (ccm_chan demo_close_twice))
   \<and> ccm_abort (ccm_run demo_ccm_Map [Caller 0] demo_close_twice) = None
   \<and> ch_closed (ccm_chan (ccm_run demo_ccm_Map [Caller 0] demo_close_twice))
   \<and> todo (ccm_callers (ccm_run demo_ccm_Map [Caller 0] demo_close_twice) ! 0) = ccm_Close # []
   \<and> ccm_step demo_ccm_Map (Caller 0) (ccm_run demo_ccm_Map [Caller 0] demo_close_twice)
       = Some ((ccm_run demo_ccm_Map [Caller 0] demo_close_twice)
                 \<lparr>ccm_abort := Some (Panic ''close of closed channel'')\<rparr>)
   \<and> ccm_abort (ccm_run demo_ccm_Map [Caller 0, Caller 0] demo_close_twice)
       = Some (Panic ''close of closed channel'')"
proof -
  let ?w0 = demo_close_twice
  let ?w1 = "ccm_run demo_ccm_Map [Caller 0] demo_close_twice"
  have h0: "ccm_abort ?w0 = None \<and> 0 < length (ccm_callers ?w0) \<and> pc (ccm_callers ?w0 ! 0) = Idle
      \<and> todo (ccm_callers ?w0 ! 0) = ccm_Close # ccm_Close # []
      \<and> \<not> ch_closed (ccm_chan ?w0)"
    by (simp add: demo_close_twice_def ccm_eval)
  have h1: "ccm_abort ?w1 = None \<and> 0 < length (ccm_callers ?w1) \<and> pc (ccm_callers ?w1 ! 0) = Idle
      \<and> todo (ccm_callers ?w1 ! 0) = ccm_Close # [] \<and> ch_closed (ccm_chan ?w1)"
    by (simp add: demo_close_twice_def ccm_eval)
  from ccm_Close_twice_panics [where w = ?w1 and i = 0 and rest' = "[]" and M = demo_ccm_Map] h1
  have s2: "ccm_step demo_ccm_Map (Caller 0) ?w1
      = Some (?w1\<lparr>ccm_abort := Some (Panic ''close of closed channel'')\<rparr>)"
    by blast
  from ccm_Close_twice_panics [where w = ?w0 and i = 0 and rest = "[]" and M = demo_ccm_Map] h0
  obtain w1 w2 where two: "ccm_step demo_ccm_Map (Caller 0) ?w0 = Some w1"
    "ccm_step demo_ccm_Map (Caller 0) w1 = Some w2"
    "ccm_abort w2 = Some (Panic ''close of closed channel'')"
    by blast
  then have "ccm_abort (ccm_run demo_ccm_Map [Caller 0, Caller 0] ?w0)
      = Some (Panic ''close of closed channel'')"
    by simp
  with h0 h1 s2 show ?thesis by blast
qed

section \<open>Shutdown of the uniform-message coordinator\<close>

text \<open>
  C4. \<open>Close()\<close> closes the shared request channel (leaving what is buffered in place);
  the worker, at its receive on the closed and drained channel, returns; and once the
  worker has returned, whatever is scheduled afterwards, it stays returned, makes no
  step, takes no further request off the channel and the map is not touched again.
\<close>

theorem ccm_Close_terminates_worker:
  "(ccm_abort w = None \<and> i < length (ccm_callers w) \<and> pc (ccm_callers w ! i) = Idle
      \<and> todo (ccm_callers w ! i) = ccm_Close # rest \<and> \<not> ch_closed (ccm_chan w) \<longrightarrow>
      (\<exists>w1. ccm_step M (Caller i) w = Some w1 \<and> ch_closed (ccm_chan w1)
          \<and> ch_buf (ccm_chan w1) = ch_buf (ccm_chan w) \<and> ccm_worker w1 = ccm_worker w
          \<and> ccm_abort w1 = None))
   \<and> (ccm_abort w = None \<and> ccm_worker w = WSelect \<and> ch_closed (ccm_chan w)
        \<and> ch_buf (ccm_chan w) = [] \<longrightarrow>
      ccm_step M Worker w = Some (w\<lparr>ccm_worker := WReturned\<rparr>))
   \<and> (ccm_worker w = WReturned \<longrightarrow>
      ccm_worker (ccm_run M sched w) = WReturned
      \<and> ccm_step M Worker (ccm_run M sched w) = None
      \<and> filter is_Dispatched (ccm_trace (ccm_run M sched w)) = filter is_Dispatched (ccm_trace w)
      \<and> ccm_heap (ccm_run M sched w) = ccm_heap w)"
proof (intro conjI impI)
  assume "ccm_abort w = None \<and> i < length (ccm_callers w) \<and> pc (ccm_callers w ! i) = Idle
      \<and> todo (ccm_callers w ! i) = ccm_Close # rest \<and> \<not> ch_closed (ccm_chan w)"
  then show "\<exists>w1. ccm_step M (Caller i) w = Some w1 \<and> ch_closed (ccm_chan w1)
          \<and> ch_buf (ccm_chan w1) = ch_buf (ccm_chan w) \<and> ccm_worker w1 = ccm_worker w
          \<and> ccm_abort w1 = None"
    by (simp add: ccm_step_def ccm_caller_step_def chan_close_def Let_def)
next
  assume "ccm_abort w = None \<and> ccm_worker w = WSelect \<and> ch_closed (ccm_chan w)
        \<and> ch_buf (ccm_chan w) = []"
  then show "ccm_step M Worker w = Some (w\<lparr>ccm_worker := WReturned\<rparr>)"
    by (simp add: ccm_step_def ccm_loopMap_step_def chan_recv_def)
next
  assume r: "ccm_worker w = WReturned"
  then show "ccm_worker (ccm_run M sched w) = WReturned"
    and "filter is_Dispatched (ccm_trace (ccm_run M sched w)) = filter is_Dispatched (ccm_trace w)"
    and "ccm_heap (ccm_run M sched w) = ccm_heap w"
    using ccm_returned_run [of w M sched] by simp_all
  then show "ccm_step M Worker (ccm_run M sched w) = None"
    using ccm_returned_blocked by blast
qed



theorem ccm_Close_terminates_worker_witness:
  "(ccm_abort demo_close_world = None \<and> 0 < length (ccm_callers demo_close_world)
      \<and> pc (ccm_callers demo_close_world ! 0) = Idle
      \<and> todo (ccm_callers demo_close_world ! 0) = ccm_Close # []
      \<and> \<not> ch_closed (ccm_chan demo_close_world))
   \<and> ch_closed (ccm_chan (ccm_run demo_ccm_Map [Caller 0] demo_close_world))
   \<and> ccm_step demo_ccm_Map Worker (ccm_run demo_ccm_Map [Caller 0] demo_close_world)
       = Some ((ccm_run demo_ccm_Map [Caller 0] demo_close_world)\<lparr>ccm_worker := WReturned\<rparr>)
   \<and> ccm_worker (ccm_run demo_ccm_Map [Caller 0, Worker] demo_close_world) = WReturned
   \<and> ccm_worker (ccm_run demo_ccm_Map [Worker, Caller 1, Caller 1, Worker]
        (ccm_run demo_ccm_Map [Caller 0, Worker] demo_close_world)) = WReturned
   \<and> filter is_Dispatched (ccm_trace (ccm_run demo_ccm_Map [Worker, Caller 1, Caller 1, Worker]
        (ccm_run demo_ccm_Map [Caller 0, Worker] demo_close_world))) = []"
proof -
  let ?w0 = demo_close_world
  let ?w1 = "ccm_run demo_ccm_Map [Caller 0] demo_close_world"
  let ?w2 = "ccm_run demo_ccm_Map [Caller 0, Worker] demo_close_world"
  have h1: "ccm_abort ?w0 = None \<and> 0 < length (ccm_callers ?w0) \<and> pc (ccm_callers ?w0 ! 0) = Idle
      \<and> todo (ccm_callers ?w0 ! 0) = ccm_Close # [] \<and> \<not> ch_closed (ccm_chan ?w0)"
    by (simp add: demo_close_world_def ccm_eval)
  have s1: "?w1 = the (ccm_step demo_ccm_Map (Caller 0) ?w0)"
    by (simp add: demo_close_world_def ccm_eval)
  from ccm_Close_terminates_worker [of ?w0 0 "[]" demo_ccm_Map "[]"] h1
  have c1: "ch_closed (ccm_chan ?w1)"
    unfolding s1 by force
  have h2: "ccm_abort ?w1 = None \<and> ccm_worker ?w1 = WSelect \<and> ch_closed (ccm_chan ?w1)
      \<and> ch_buf (ccm_chan ?w1) = []"
    by (simp add: demo_close_world_def ccm_eval)
  from ccm_Close_terminates_worker [of ?w1 0 "[]" demo_ccm_Map "[]"] h2
  have c2: "ccm_step demo_ccm_Map Worker ?w1 = Some (?w1\<lparr>ccm_worker := WReturned\<rparr>)"
    by blast
  have h3: "ccm_worker ?w2 = WReturned"
    by (simp add: demo_close_world_def ccm_eval)
  have t3: "filter is_Dispatched (ccm_trace ?w2) = []"
    by (simp add: demo_close_world_def ccm_eval)
  from ccm_Close_terminates_worker
    [of ?w2 0 "[]" demo_ccm_Map "[Worker, Caller 1, Caller 1, Worker]"] h3 t3
  have "ccm_worker (ccm_run demo_ccm_Map [Worker, Caller 1, Caller 1, Worker] ?w2) = WReturned
   \<and> filter is_Dispatched
        (ccm_trace (ccm_run demo_ccm_Map [Worker, Caller 1, Caller 1, Worker] ?w2)) = []"
    by presburger
  with h1 c1 c2 h3 show ?thesis by blast
qed

section \<open>Who touches the map\<close>

text \<open>
  C1. In both coordinators the wrapped map is read and written by the worker only, and
  only in the step in which it serves the one request it holds: every step of a caller,
  and every other step of the worker, does the same whatever the map objects hold
  and leaves them as they are. The worker is one sequential task holding at most one
  request, so at most one map operation is under way at any time; the model has no lock.
\<close>

theorem map_touched_only_by_worker:
  "((t = Worker \<longrightarrow> (\<forall>req. ccm_worker w \<noteq> WServe req)) \<longrightarrow>
      ccm_step M t (w\<lparr>ccm_heap := h\<rparr>) = map_option (\<lambda>w'. w'\<lparr>ccm_heap := h\<rparr>) (ccm_step M t w))
   \<and> ((t = Worker \<longrightarrow> (\<forall>msg. cm_worker u \<noteq> WServe msg)) \<longrightarrow>
      cm_step N t (u\<lparr>cm_heap := g\<rparr>) = map_option (\<lambda>u'. u'\<lparr>cm_heap := g\<rparr>) (cm_step N t u))"
proof (intro conjI impI)
  assume a: "t = Worker \<longrightarrow> (\<forall>req. ccm_worker w \<noteq> WServe req)"
  show "ccm_step M t (w\<lparr>ccm_heap := h\<rparr>) = map_option (\<lambda>w'. w'\<lparr>ccm_heap := h\<rparr>) (ccm_step M t w)"
  proof (cases t)
    case Worker
    with a show ?thesis
      by (cases "ccm_worker w")
        (auto simp: ccm_step_def ccm_loopMap_step_def Let_def
              split: option.splits list.splits prod.splits)
  next
    case (Caller i)
    then show ?thesis
      by (auto simp: ccm_step_def ccm_caller_step_def Let_def
              split: option.splits list.splits pc.splits sum.splits)
  qed
next
  assume a: "t = Worker \<longrightarrow> (\<forall>msg. cm_worker u \<noteq> WServe msg)"
  show "cm_step N t (u\<lparr>cm_heap := g\<rparr>) = map_option (\<lambda>u'. u'\<lparr>cm_heap := g\<rparr>) (cm_step N t u)"
  proof (cases t)
    case Worker
    with a show ?thesis
      by (cases "cm_worker u")
        (auto simp: cm_step_def cm_loopMap_step_def Let_def
              split: option.splits list.splits prod.splits)
  next
    case (Caller i)
    then show ?thesis
      by (auto simp: cm_step_def cm_caller_step_def Let_def
              split: option.splits list.splits pc.splits wstate.splits)
  qed
qed

theorem map_touched_only_by_worker_witness:
  "let w = NewChannelConcurrentMap 0 (\<lambda>a. []) [[ccm_Get ''a'']]
             :: (string, int, (string \<times> int) list) ccm_world;
       u = NewConcurrentMap 0 (\<lambda>a. []) [[cm_Get ''a'']]
             :: (string, int, (string \<times> int) list, (string \<times> int) list) cm_world;
       h = (\<lambda>a. [(''a'', 1)])
   in (\<forall>req. ccm_worker w \<noteq> WServe req) \<and> (\<forall>msg. cm_worker u \<noteq> WServe msg)
      \<and> ccm_step demo_ccm_Map (Caller 0) w \<noteq> None
      \<and> ccm_step demo_ccm_Map (Caller 0) (w\<lparr>ccm_heap := h\<rparr>)
          = map_option (\<lambda>w'. w'\<lparr>ccm_heap := h\<rparr>) (ccm_step demo_ccm_Map (Caller 0) w)
      \<and> cm_step demo_KV_Map (Caller 0) u \<noteq> None
      \<and> cm_step demo_KV_Map (Caller 0) (u\<lparr>cm_heap := h\<rparr>)
          = map_option (\<lambda>u'. u'\<lparr>cm_heap := h\<rparr>) (cm_step demo_KV_Map (Caller 0) u)"
  using map_touched_only_by_worker
      [of "Caller 0" "NewChannelConcurrentMap 0 (\<lambda>a. []) [[ccm_Get ''a'']]"
          demo_ccm_Map "\<lambda>a. [(''a'', 1)]"
          "NewConcurrentMap 0 (\<lambda>a. []) [[cm_Get ''a'']]" demo_KV_Map "\<lambda>a. [(''a'', 1)]"]
  by (simp add: Let_def NewChannelConcurrentMap_def NewConcurrentMap_def make_chan_def
        ccm_step_def ccm_caller_step_def cm_step_def cm_caller_step_def)

section \<open>What \<open>Delete\<close> returns\<close>

text \<open>
  C6. A \<open>Delete(key)\<close> issued by an idle caller and served at once (the worker is at the
  top of its loop; in the uniform variant the channel is open and empty): in the
  request-typed coordinator the call returns an \<open>int\<close>, in the uniform-message
  coordinator the pair of previous value and found flag, and in both the value is the
  one the \<open>Delete\<close> of the wrapped map produced on the map as it was, the map being left
  as that \<open>Delete\<close> left it. And with any callers, programs and schedule: whatever a
  \<open>Delete(key)\<close> call has returned is the \<open>int\<close>, respectively the pair, that the wrapped
  map's \<open>Delete\<close> produces for that key on some state of the map. (That the \<open>int\<close> is the
  new length is the wrapped map's affair; the concrete map of the witness returns the
  new length.)

  Which state of the map, under any schedule. In any world, a worker that holds a
  \<open>Delete\<close> request for \<open>key\<close> with reply channel \<open>r\<close> takes one step: it calls the wrapped
  map's \<open>Delete\<close> on the map as it is, leaves the map as that call left it, and stands
  at the reply send on \<open>r\<close> with exactly the value that call produced (the \<open>int\<close>,
  respectively the pair). And with any callers, programs and schedule, for every
  \<open>Delete(key)\<close> call that has returned, call number \<open>k\<close> of caller \<open>a\<close>: the run passed
  through a world (after a prefix \<open>s1\<close> of the schedule) in which the worker held this
  call's request, caller \<open>a\<close> was the one waiting on its reply channel with \<open>k\<close> calls
  returned, and the value the call returned is exactly what the wrapped map's \<open>Delete\<close>
  produces for \<open>key\<close> on the map as it was in that world, whatever the other callers
  did before, in between and after.
\<close>

theorem Delete_returns_Map_Delete_result:
  "(cm_worker u = WSelect \<and> i < length (cm_callers u) \<and> pc (cm_callers u ! i) = Idle
      \<and> todo (cm_callers u ! i) = cm_Delete key # rest
      \<and> receiver_of (length (cm_made u)) (cm_callers u) = None
      \<and> KV_Delete N key (cm_heap u (cm_storage (cm u))) = (n, m') \<longrightarrow>
    results (cm_callers (cm_run N [Caller i, Caller i, Worker, Worker] u) ! i)
        = results (cm_callers u ! i) @ [Ret_int n]
      \<and> cm_heap (cm_run N [Caller i, Caller i, Worker, Worker] u) (cm_storage (cm u)) = m')
   \<and> (ccm_abort w = None \<and> ccm_worker w = WSelect \<and> ch_buf (ccm_chan w) = []
      \<and> \<not> ch_closed (ccm_chan w) \<and> 0 < ch_cap (ccm_chan w)
      \<and> j < length (ccm_callers w) \<and> pc (ccm_callers w ! j) = Idle
      \<and> todo (ccm_callers w ! j) = ccm_Delete key # rest'
      \<and> receiver_of (length (ccm_made w)) (ccm_callers w) = None
      \<and> Map_Delete M key (ccm_heap w (ccm_storage (ccm w))) = ((prev, found), m'') \<longrightarrow>
    results (ccm_callers (ccm_run M [Caller j, Caller j, Worker, Worker, Worker] w) ! j)
        = results (ccm_callers w ! j) @ [R_pair prev found]
      \<and> ccm_heap (ccm_run M [Caller j, Caller j, Worker, Worker, Worker] w) (ccm_storage (ccm w))
          = m'')
   \<and> (\<forall>a < length progs.
        \<forall>k < length (results (cm_callers (cm_run N sched (NewConcurrentMap st h progs)) ! a)).
          progs ! a ! k = cm_Delete key \<longrightarrow>
          (\<exists>m. results (cm_callers (cm_run N sched (NewConcurrentMap st h progs)) ! a) ! k
                 = Ret_int (fst (KV_Delete N key m))))
   \<and> (\<forall>a < length progs'.
        \<forall>k < length (results
                (ccm_callers (ccm_run M sched' (NewChannelConcurrentMap st' h' progs')) ! a)).
          progs' ! a ! k = ccm_Delete key \<longrightarrow>
          (\<exists>m. results (ccm_callers (ccm_run M sched' (NewChannelConcurrentMap st' h' progs')) ! a)
                   ! k
                 = R_pair (fst (fst (Map_Delete M key m))) (snd (fst (Map_Delete M key m)))))
   \<and> (cm_worker x = WServe (on_deleteCh key r) \<longrightarrow>
        cm_step N Worker x =
          Some (x\<lparr>cm_heap := (cm_heap x)
                     (cm_storage (cm x) := snd (KV_Delete N key (cm_heap x (cm_storage (cm x))))),
                  cm_worker := WReply r
                     (send_int (fst (KV_Delete N key (cm_heap x (cm_storage (cm x))))))\<rparr>))
   \<and> (ccm_abort y = None \<and> ccm_worker y = WServe (deleteRequest key r') \<longrightarrow>
        ccm_step M Worker y =
          Some (y\<lparr>ccm_heap := (ccm_heap y)
                     (ccm_storage (ccm y)
                        := snd (Map_Delete M key (ccm_heap y (ccm_storage (ccm y))))),
                  ccm_worker := WReply r'
                     (deleteResult
                        (fst (fst (Map_Delete M key (ccm_heap y (ccm_storage (ccm y))))))
                        (snd (fst (Map_Delete M key (ccm_heap y (ccm_storage (ccm y)))))))\<rparr>))
   \<and> (\<forall>a < length progs.
        \<forall>k < length (results (cm_callers (cm_run N sched (NewConcurrentMap st h progs)) ! a)).
          progs ! a ! k = cm_Delete key \<longrightarrow>
          (\<exists>s1 s2 c. sched = s1 @ s2
             \<and> cm_worker (cm_run N s1 (NewConcurrentMap st h progs)) = WServe (on_deleteCh key c)
             \<and> receiver_of c (cm_callers (cm_run N s1 (NewConcurrentMap st h progs))) = Some a
             \<and> length (results (cm_callers (cm_run N s1 (NewConcurrentMap st h progs)) ! a)) = k
             \<and> results (cm_callers (cm_run N sched (NewConcurrentMap st h progs)) ! a) ! k
                 = Ret_int (fst (KV_Delete N key
                     (cm_heap (cm_run N s1 (NewConcurrentMap st h progs)) st)))))
   \<and> (\<forall>a < length progs'.
        \<forall>k < length (results
                (ccm_callers (ccm_run M sched' (NewChannelConcurrentMap st' h' progs')) ! a)).
          progs' ! a ! k = ccm_Delete key \<longrightarrow>
          (\<exists>s1 s2 c. sched' = s1 @ s2
             \<and> ccm_abort (ccm_run M s1 (NewChannelConcurrentMap st' h' progs')) = None
             \<and> ccm_worker (ccm_run M s1 (NewChannelConcurrentMap st' h' progs'))
                 = WServe (deleteRequest key c)
             \<and> receiver_of c (ccm_callers (ccm_run M s1 (NewChannelConcurrentMap st' h' progs')))
                 = Some a
             \<and> length (results
                  (ccm_callers (ccm_run M s1 (NewChannelConcurrentMap st' h' progs')) ! a)) = k
             \<and> results (ccm_callers (ccm_run M sched' (NewChannelConcurrentMap st' h' progs')) ! a)
                 ! k
                 = R_pair
                     (fst (fst (Map_Delete M key
                        (ccm_heap (ccm_run M s1 (NewChannelConcurrentMap st' h' progs')) st'))))
                     (snd (fst (Map_Delete M key
                        (ccm_heap (ccm_run M s1 (NewChannelConcurrentMap st' h' progs')) st'))))))"
proof (intro conjI impI allI)
  assume a: "cm_worker u = WSelect \<and> i < length (cm_callers u) \<and> pc (cm_callers u ! i) = Idle
      \<and> todo (cm_callers u ! i) = cm_Delete key # rest
      \<and> receiver_of (length (cm_made u)) (cm_callers u) = None
      \<and> KV_Delete N key (cm_heap u (cm_storage (cm u))) = (n, m')"
  then show "results (cm_callers (cm_run N [Caller i, Caller i, Worker, Worker] u) ! i)
        = results (cm_callers u ! i) @ [Ret_int n]"
    using cm_roundtrip_result(1) [of u i "cm_Delete key" rest N] by simp
  from a show "cm_heap (cm_run N [Caller i, Caller i, Worker, Worker] u) (cm_storage (cm u)) = m'"
    using cm_roundtrip_result(2) [of u i "cm_Delete key" rest N] by simp
next
  assume a: "ccm_abort w = None \<and> ccm_worker w = WSelect \<and> ch_buf (ccm_chan w) = []
      \<and> \<not> ch_closed (ccm_chan w) \<and> 0 < ch_cap (ccm_chan w)
      \<and> j < length (ccm_callers w) \<and> pc (ccm_callers w ! j) = Idle
      \<and> todo (ccm_callers w ! j) = ccm_Delete key # rest'
      \<and> receiver_of (length (ccm_made w)) (ccm_callers w) = None
      \<and> Map_Delete M key (ccm_heap w (ccm_storage (ccm w))) = ((prev, found), m'')"
  then show "results (ccm_callers (ccm_run M [Caller j, Caller j, Worker, Worker, Worker] w) ! j)
        = results (ccm_callers w ! j) @ [R_pair prev found]"
    using ccm_roundtrip_result(1) [of w j "ccm_Delete key" rest' M] by simp
  from a show "ccm_heap (ccm_run M [Caller j, Caller j, Worker, Worker, Worker] w)
      (ccm_storage (ccm w)) = m''"
    using ccm_roundtrip_result(2) [of w j "ccm_Delete key" rest' M] by simp
next
  fix a k
  let ?u = "cm_run N sched (NewConcurrentMap st h progs)"
  assume a: "a < length progs" and k: "k < length (results (cm_callers ?u ! a))"
    and d: "progs ! a ! k = cm_Delete key"
  have "cm_hist_inv N st progs ?u"
    by (intro cm_hist_run cm_hist_init)
  with a have "cm_caller_ok N st (cm_worker ?u) (progs ! a) (cm_callers ?u ! a)"
    by (simp add: cm_hist_inv_def)
  with k obtain m where "results (cm_callers ?u ! a) ! k = fst (cm_apply N st (progs ! a ! k) m)"
    by (auto simp: cm_caller_ok_def)
  with d have "results (cm_callers ?u ! a) ! k = Ret_int (fst (KV_Delete N key m))"
    by (simp split: prod.splits)
  then show "\<exists>m. results (cm_callers ?u ! a) ! k = Ret_int (fst (KV_Delete N key m))" ..
next
  fix a k
  let ?w = "ccm_run M sched' (NewChannelConcurrentMap st' h' progs')"
  assume a: "a < length progs'" and k: "k < length (results (ccm_callers ?w ! a))"
    and d: "progs' ! a ! k = ccm_Delete key"
  have "ccm_hist_inv M progs' ?w"
    by (intro ccm_hist_run ccm_hist_init)
  with a have "ccm_caller_ok M (ccm_worker ?w) (ch_buf (ccm_chan ?w)) (progs' ! a)
      (ccm_callers ?w ! a)"
    by (simp add: ccm_hist_inv_def)
  with k obtain m where
    "results (ccm_callers ?w ! a) ! k = fst (ccm_apply M (progs' ! a ! k) m)"
    by (auto simp: ccm_caller_ok_def)
  with d have "results (ccm_callers ?w ! a) ! k
      = R_pair (fst (fst (Map_Delete M key m))) (snd (fst (Map_Delete M key m)))"
    by (simp split: prod.splits)
  then show "\<exists>m. results (ccm_callers ?w ! a) ! k
      = R_pair (fst (fst (Map_Delete M key m))) (snd (fst (Map_Delete M key m)))" ..
next
  assume "cm_worker x = WServe (on_deleteCh key r)"
  then show "cm_step N Worker x =
      Some (x\<lparr>cm_heap := (cm_heap x)
                 (cm_storage (cm x) := snd (KV_Delete N key (cm_heap x (cm_storage (cm x))))),
              cm_worker := WReply r
                 (send_int (fst (KV_Delete N key (cm_heap x (cm_storage (cm x))))))\<rparr>)"
    by (simp add: cm_step_def cm_loopMap_step_def split: prod.splits)
next
  assume "ccm_abort y = None \<and> ccm_worker y = WServe (deleteRequest key r')"
  then show "ccm_step M Worker y =
      Some (y\<lparr>ccm_heap := (ccm_heap y)
                 (ccm_storage (ccm y)
                    := snd (Map_Delete M key (ccm_heap y (ccm_storage (ccm y))))),
              ccm_worker := WReply r'
                 (deleteResult
                    (fst (fst (Map_Delete M key (ccm_heap y (ccm_storage (ccm y))))))
                    (snd (fst (Map_Delete M key (ccm_heap y (ccm_storage (ccm y)))))))\<rparr>)"
    by (simp add: ccm_step_def ccm_loopMap_step_def split: prod.splits)
next
  fix a k
  let ?i = "NewConcurrentMap st h progs"
  let ?u = "cm_run N sched ?i"
  assume a: "a < length progs" and k: "k < length (results (cm_callers ?u ! a))"
    and d: "progs ! a ! k = cm_Delete key"
  from cm_served_run [of N st h progs sched] a k
  obtain c where "cm_was_served N ?i sched (progs ! a) a k c (results (cm_callers ?u ! a) ! k)"
    unfolding cm_served_inv_def by blast
  then obtain s1 s2 where s: "sched = s1 @ s2"
    and at: "cm_served_at N (cm_run N s1 ?i) (progs ! a) a k c (results (cm_callers ?u ! a) ! k)"
    unfolding cm_was_served_def by blast
  have st: "cm_storage (cm (cm_run N s1 ?i)) = st"
    by (simp add: cm_struct_run NewConcurrentMap_def)
  from at d have "cm_worker (cm_run N s1 ?i) = WServe (on_deleteCh key c)"
    and "receiver_of c (cm_callers (cm_run N s1 ?i)) = Some a"
    and "length (results (cm_callers (cm_run N s1 ?i) ! a)) = k"
    and "results (cm_callers ?u ! a) ! k
           = Ret_int (fst (KV_Delete N key (cm_heap (cm_run N s1 ?i) st)))"
    unfolding cm_served_at_def st by (simp_all split: prod.splits)
  with s show "\<exists>s1 s2 c. sched = s1 @ s2
      \<and> cm_worker (cm_run N s1 ?i) = WServe (on_deleteCh key c)
      \<and> receiver_of c (cm_callers (cm_run N s1 ?i)) = Some a
      \<and> length (results (cm_callers (cm_run N s1 ?i) ! a)) = k
      \<and> results (cm_callers ?u ! a) ! k
          = Ret_int (fst (KV_Delete N key (cm_heap (cm_run N s1 ?i) st)))"
    by blast
next
  fix a k
  let ?i = "NewChannelConcurrentMap st' h' progs'"
  let ?w = "ccm_run M sched' ?i"
  assume a: "a < length progs'" and k: "k < length (results (ccm_callers ?w ! a))"
    and d: "progs' ! a ! k = ccm_Delete key"
  from d have "progs' ! a ! k \<noteq> ccm_Close" by simp
  with ccm_served_run [of M st' h' progs' sched'] a k
  obtain c where "ccm_was_served M ?i sched' (progs' ! a) a k c
      (results (ccm_callers ?w ! a) ! k)"
    unfolding ccm_served_inv_def by blast
  then obtain s1 s2 where s: "sched' = s1 @ s2"
    and at: "ccm_served_at M (ccm_run M s1 ?i) (progs' ! a) a k c
      (results (ccm_callers ?w ! a) ! k)"
    unfolding ccm_was_served_def by blast
  have st: "ccm_storage (ccm (ccm_run M s1 ?i)) = st'"
    by (simp add: ccm_struct_run NewChannelConcurrentMap_def)
  from at d have "ccm_abort (ccm_run M s1 ?i) = None"
    and "ccm_worker (ccm_run M s1 ?i) = WServe (deleteRequest key c)"
    and "receiver_of c (ccm_callers (ccm_run M s1 ?i)) = Some a"
    and "length (results (ccm_callers (ccm_run M s1 ?i) ! a)) = k"
    and "results (ccm_callers ?w ! a) ! k
           = R_pair (fst (fst (Map_Delete M key (ccm_heap (ccm_run M s1 ?i) st'))))
               (snd (fst (Map_Delete M key (ccm_heap (ccm_run M s1 ?i) st'))))"
    unfolding ccm_served_at_def st by (simp_all split: prod.splits)
  with s show "\<exists>s1 s2 c. sched' = s1 @ s2
      \<and> ccm_abort (ccm_run M s1 ?i) = None
      \<and> ccm_worker (ccm_run M s1 ?i) = WServe (deleteRequest key c)
      \<and> receiver_of c (ccm_callers (ccm_run M s1 ?i)) = Some a
      \<and> length (results (ccm_callers (ccm_run M s1 ?i) ! a)) = k
      \<and> results (ccm_callers ?w ! a) ! k
          = R_pair (fst (fst (Map_Delete M key (ccm_heap (ccm_run M s1 ?i) st'))))
              (snd (fst (Map_Delete M key (ccm_heap (ccm_run M s1 ?i) st'))))"
    by blast
qed

theorem Delete_returns_Map_Delete_result_witness:
  "(cm_worker demo_delete_cm = WSelect \<and> 0 < length (cm_callers demo_delete_cm)
      \<and> pc (cm_callers demo_delete_cm ! 0) = Idle
      \<and> todo (cm_callers demo_delete_cm ! 0) = cm_Delete ''a'' # []
      \<and> receiver_of (length (cm_made demo_delete_cm)) (cm_callers demo_delete_cm) = None
      \<and> KV_Delete demo_KV_Map ''a'' (cm_heap demo_delete_cm (cm_storage (cm demo_delete_cm)))
           = (1, [(''b'', 2)]))
   \<and> results (cm_callers (cm_run demo_KV_Map [Caller 0, Caller 0, Worker, Worker]
        demo_delete_cm) ! 0) = [Ret_int 1]
   \<and> (ccm_abort demo_delete_ccm = None \<and> ccm_worker demo_delete_ccm = WSelect
      \<and> ch_buf (ccm_chan demo_delete_ccm) = [] \<and> \<not> ch_closed (ccm_chan demo_delete_ccm)
      \<and> 0 < ch_cap (ccm_chan demo_delete_ccm)
      \<and> 0 < length (ccm_callers demo_delete_ccm) \<and> pc (ccm_callers demo_delete_ccm ! 0) = Idle
      \<and> todo (ccm_callers demo_delete_ccm ! 0) = ccm_Delete ''a'' # []
      \<and> receiver_of (length (ccm_made demo_delete_ccm)) (ccm_callers demo_delete_ccm) = None
      \<and> Map_Delete demo_ccm_Map ''a''
           (ccm_heap demo_delete_ccm (ccm_storage (ccm demo_delete_ccm)))
           = ((1, True), [(''b'', 2)]))
   \<and> results (ccm_callers (ccm_run demo_ccm_Map [Caller 0, Caller 0, Worker, Worker, Worker]
        demo_delete_ccm) ! 0) = [R_pair 1 True]
   \<and> 0 < length [[cm_Delete ''a'' :: (string, int) cm_call]]
   \<and> 0 < length (results (cm_callers (cm_run demo_KV_Map [Caller 0, Caller 0, Worker, Worker]
        demo_delete_cm) ! 0))
   \<and> [[cm_Delete ''a'' :: (string, int) cm_call]] ! 0 ! 0 = cm_Delete ''a''
   \<and> (\<exists>m. results (cm_callers (cm_run demo_KV_Map [Caller 0, Caller 0, Worker, Worker]
        demo_delete_cm) ! 0) ! 0 = Ret_int (fst (KV_Delete demo_KV_Map ''a'' m)))
   \<and> 0 < length [[ccm_Delete ''a'' :: (string, int) ccm_call]]
   \<and> 0 < length (results (ccm_callers (ccm_run demo_ccm_Map
        [Caller 0, Caller 0, Worker, Worker, Worker] demo_delete_ccm) ! 0))
   \<and> [[ccm_Delete ''a'' :: (string, int) ccm_call]] ! 0 ! 0 = ccm_Delete ''a''
   \<and> (\<exists>m. results (ccm_callers (ccm_run demo_ccm_Map
        [Caller 0, Caller 0, Worker, Worker, Worker] demo_delete_ccm) ! 0) ! 0
        = R_pair (fst (fst (Map_Delete demo_ccm_Map ''a'' m)))
            (snd (fst (Map_Delete demo_ccm_Map ''a'' m))))
   \<and> cm_worker (cm_run demo_KV_Map [Caller 0, Caller 0] demo_delete_cm)
        = WServe (on_deleteCh ''a'' 8)
   \<and> cm_worker (the (cm_step demo_KV_Map Worker
        (cm_run demo_KV_Map [Caller 0, Caller 0] demo_delete_cm))) = WReply 8 (send_int 1)
   \<and> cm_heap (the (cm_step demo_KV_Map Worker
        (cm_run demo_KV_Map [Caller 0, Caller 0] demo_delete_cm))) 0 = [(''b'', 2)]
   \<and> ccm_abort (ccm_run demo_ccm_Map [Caller 0, Caller 0, Worker] demo_delete_ccm) = None
   \<and> ccm_worker (ccm_run demo_ccm_Map [Caller 0, Caller 0, Worker] demo_delete_ccm)
        = WServe (deleteRequest ''a'' 1)
   \<and> ccm_worker (the (ccm_step demo_ccm_Map Worker
        (ccm_run demo_ccm_Map [Caller 0, Caller 0, Worker] demo_delete_ccm)))
        = WReply 1 (deleteResult 1 True)
   \<and> ccm_heap (the (ccm_step demo_ccm_Map Worker
        (ccm_run demo_ccm_Map [Caller 0, Caller 0, Worker] demo_delete_ccm))) 0 = [(''b'', 2)]
   \<and> (\<exists>s1 s2 c. [Caller 0, Caller 0, Worker, Worker] = s1 @ s2
        \<and> cm_worker (cm_run demo_KV_Map s1 demo_delete_cm) = WServe (on_deleteCh ''a'' c)
        \<and> receiver_of c (cm_callers (cm_run demo_KV_Map s1 demo_delete_cm)) = Some 0
        \<and> length (results (cm_callers (cm_run demo_KV_Map s1 demo_delete_cm) ! 0)) = 0
        \<and> results (cm_callers (cm_run demo_KV_Map [Caller 0, Caller 0, Worker, Worker]
             demo_delete_cm) ! 0) ! 0
            = Ret_int (fst (KV_Delete demo_KV_Map ''a''
                (cm_heap (cm_run demo_KV_Map s1 demo_delete_cm) 0))))
   \<and> (\<exists>s1 s2 c. [Caller 0, Caller 0, Worker, Worker, Worker] = s1 @ s2
        \<and> ccm_abort (ccm_run demo_ccm_Map s1 demo_delete_ccm) = None
        \<and> ccm_worker (ccm_run demo_ccm_Map s1 demo_delete_ccm) = WServe (deleteRequest ''a'' c)
        \<and> receiver_of c (ccm_callers (ccm_run demo_ccm_Map s1 demo_delete_ccm)) = Some 0
        \<and> length (results (ccm_callers (ccm_run demo_ccm_Map s1 demo_delete_ccm) ! 0)) = 0
        \<and> results (ccm_callers (ccm_run demo_ccm_Map
             [Caller 0, Caller 0, Worker, Worker, Worker] demo_delete_ccm) ! 0) ! 0
            = R_pair
                (fst (fst (Map_Delete demo_ccm_Map ''a''
                   (ccm_heap (ccm_run demo_ccm_Map s1 demo_delete_ccm) 0))))
                (snd (fst (Map_Delete demo_ccm_Map ''a''
                   (ccm_heap (ccm_run demo_ccm_Map s1 demo_delete_ccm) 0)))))"
proof -
  let ?X = "cm_run demo_KV_Map [Caller 0, Caller 0] demo_delete_cm"
  let ?Y = "ccm_run demo_ccm_Map [Caller 0, Caller 0, Worker] demo_delete_ccm"
  have h1: "cm_worker demo_delete_cm = WSelect \<and> 0 < length (cm_callers demo_delete_cm)
      \<and> pc (cm_callers demo_delete_cm ! 0) = Idle
      \<and> todo (cm_callers demo_delete_cm ! 0) = cm_Delete ''a'' # []
      \<and> receiver_of (length (cm_made demo_delete_cm)) (cm_callers demo_delete_cm) = None
      \<and> KV_Delete demo_KV_Map ''a'' (cm_heap demo_delete_cm (cm_storage (cm demo_delete_cm)))
           = (1, [(''b'', 2)])"
    by (simp add: demo_delete_cm_def NewConcurrentMap_def demo_KV_Map_def basic_KV_Map_def)
  have h2: "ccm_abort demo_delete_ccm = None \<and> ccm_worker demo_delete_ccm = WSelect
      \<and> ch_buf (ccm_chan demo_delete_ccm) = [] \<and> \<not> ch_closed (ccm_chan demo_delete_ccm)
      \<and> 0 < ch_cap (ccm_chan demo_delete_ccm)
      \<and> 0 < length (ccm_callers demo_delete_ccm) \<and> pc (ccm_callers demo_delete_ccm ! 0) = Idle
      \<and> todo (ccm_callers demo_delete_ccm ! 0) = ccm_Delete ''a'' # []
      \<and> receiver_of (length (ccm_made demo_delete_ccm)) (ccm_callers demo_delete_ccm) = None
      \<and> Map_Delete demo_ccm_Map ''a''
           (ccm_heap demo_delete_ccm (ccm_storage (ccm demo_delete_ccm)))
           = ((1, True), [(''b'', 2)])"
    by (simp add: demo_delete_ccm_def NewChannelConcurrentMap_def make_chan_def
          demo_ccm_Map_def basic_ccm_Map_def)
  have r0: "results (cm_callers demo_delete_cm ! 0) = []"
    "results (ccm_callers demo_delete_ccm ! 0) = []"
    by (simp_all add: demo_delete_cm_def NewConcurrentMap_def demo_delete_ccm_def
          NewChannelConcurrentMap_def)
  have wx: "cm_worker ?X = WServe (on_deleteCh ''a'' 8)"
    and sx: "cm_storage (cm ?X) = 0"
    and hx: "cm_heap ?X 0 = [(''a'', 1), (''b'', 2)]"
    by (simp_all add: demo_delete_cm_def cm_eval demo_KV_Map_def basic_KV_Map_def)
  have ay: "ccm_abort ?Y = None"
    and wy: "ccm_worker ?Y = WServe (deleteRequest ''a'' 1)"
    and sy: "ccm_storage (ccm ?Y) = 0"
    and hy: "ccm_heap ?Y 0 = [(''a'', 1), (''b'', 2)]"
    by (simp_all add: demo_delete_ccm_def ccm_eval demo_ccm_Map_def basic_ccm_Map_def)
  have kd: "KV_Delete demo_KV_Map ''a'' [(''a'', 1), (''b'', 2)] = (1, [(''b'', 2)])"
    by (simp add: demo_KV_Map_def basic_KV_Map_def)
  have md: "Map_Delete demo_ccm_Map ''a'' [(''a'', 1), (''b'', 2)] = ((1, True), [(''b'', 2)])"
    by (simp add: demo_ccm_Map_def basic_ccm_Map_def)
  note T = Delete_returns_Map_Delete_result
    [where u = demo_delete_cm and i = 0 and key = "''a''" and rest = "[]" and N = demo_KV_Map
       and n = 1 and m' = "[(''b'', 2)]" and w = demo_delete_ccm and j = 0 and rest' = "[]"
       and M = demo_ccm_Map and prev = 1 and found = True and m'' = "[(''b'', 2)]"
       and progs = "[[cm_Delete ''a'']]" and sched = "[Caller 0, Caller 0, Worker, Worker]"
       and st = 0 and h = "\<lambda>a. [(''a'', 1), (''b'', 2)]"
       and progs' = "[[ccm_Delete ''a'']]"
       and sched' = "[Caller 0, Caller 0, Worker, Worker, Worker]"
       and st' = 0 and h' = "\<lambda>a. [(''a'', 1), (''b'', 2)]"
       and x = ?X and r = 8 and y = ?Y and r' = 1,
     folded demo_delete_cm_def demo_delete_ccm_def]
  note T1 = T [THEN conjunct1]
  note T2 = T [THEN conjunct2, THEN conjunct1]
  note T3 = T [THEN conjunct2, THEN conjunct2, THEN conjunct1]
  note T4 = T [THEN conjunct2, THEN conjunct2, THEN conjunct2, THEN conjunct1]
  note T5 = T [THEN conjunct2, THEN conjunct2, THEN conjunct2, THEN conjunct2, THEN conjunct1]
  note T6 = T [THEN conjunct2, THEN conjunct2, THEN conjunct2, THEN conjunct2, THEN conjunct2,
    THEN conjunct1]
  note T7 = T [THEN conjunct2, THEN conjunct2, THEN conjunct2, THEN conjunct2, THEN conjunct2,
    THEN conjunct2, THEN conjunct1]
  note T8 = T [THEN conjunct2, THEN conjunct2, THEN conjunct2, THEN conjunct2, THEN conjunct2,
    THEN conjunct2, THEN conjunct2]
  from T1 [THEN mp, OF h1, THEN conjunct1]
  have res1: "results (cm_callers (cm_run demo_KV_Map [Caller 0, Caller 0, Worker, Worker]
        demo_delete_cm) ! 0) = [Ret_int 1]"
    unfolding r0 append_Nil .
  from T2 [THEN mp, OF h2, THEN conjunct1]
  have res2: "results (ccm_callers (ccm_run demo_ccm_Map
        [Caller 0, Caller 0, Worker, Worker, Worker] demo_delete_ccm) ! 0) = [R_pair 1 True]"
    unfolding r0 append_Nil .
  have l: "0 < length (results (cm_callers (cm_run demo_KV_Map
        [Caller 0, Caller 0, Worker, Worker] demo_delete_cm) ! 0))"
      "0 < length (results (ccm_callers (ccm_run demo_ccm_Map
        [Caller 0, Caller 0, Worker, Worker, Worker] demo_delete_ccm) ! 0))"
    unfolding res1 res2 by simp_all
  have p: "0 < length [[cm_Delete ''a'' :: (string, int) cm_call]]"
    "[[cm_Delete ''a'' :: (string, int) cm_call]] ! 0 ! 0 = cm_Delete ''a''"
    "0 < length [[ccm_Delete ''a'' :: (string, int) ccm_call]]"
    "[[ccm_Delete ''a'' :: (string, int) ccm_call]] ! 0 ! 0 = ccm_Delete ''a''"
    by simp_all
  from T3 l(1) p(1,2)
  have e1: "\<exists>m. results (cm_callers (cm_run demo_KV_Map [Caller 0, Caller 0, Worker, Worker]
        demo_delete_cm) ! 0) ! 0 = Ret_int (fst (KV_Delete demo_KV_Map ''a'' m))"
    by blast
  from T4 l(2) p(3,4)
  have e2: "\<exists>m. results (ccm_callers (ccm_run demo_ccm_Map
        [Caller 0, Caller 0, Worker, Worker, Worker] demo_delete_ccm) ! 0) ! 0
        = R_pair (fst (fst (Map_Delete demo_ccm_Map ''a'' m)))
            (snd (fst (Map_Delete demo_ccm_Map ''a'' m)))"
    by blast
  note s5 = T5 [THEN mp, OF wx, unfolded sx hx kd fst_conv snd_conv]
  have x5: "cm_worker (the (cm_step demo_KV_Map Worker ?X)) = WReply 8 (send_int 1)"
    "cm_heap (the (cm_step demo_KV_Map Worker ?X)) 0 = [(''b'', 2)]"
    unfolding s5 by (simp_all del: cm_run.simps)
  note s6 = T6 [THEN mp, OF conjI [OF ay wy], unfolded sy hy md fst_conv snd_conv]
  have y6: "ccm_worker (the (ccm_step demo_ccm_Map Worker ?Y)) = WReply 1 (deleteResult 1 True)"
    "ccm_heap (the (ccm_step demo_ccm_Map Worker ?Y)) 0 = [(''b'', 2)]"
    unfolding s6 by (simp_all del: ccm_run.simps)
  from T7 l(1) p(1,2)
  have e7: "\<exists>s1 s2 c. [Caller 0, Caller 0, Worker, Worker] = s1 @ s2
        \<and> cm_worker (cm_run demo_KV_Map s1 demo_delete_cm) = WServe (on_deleteCh ''a'' c)
        \<and> receiver_of c (cm_callers (cm_run demo_KV_Map s1 demo_delete_cm)) = Some 0
        \<and> length (results (cm_callers (cm_run demo_KV_Map s1 demo_delete_cm) ! 0)) = 0
        \<and> results (cm_callers (cm_run demo_KV_Map [Caller 0, Caller 0, Worker, Worker]
             demo_delete_cm) ! 0) ! 0
            = Ret_int (fst (KV_Delete demo_KV_Map ''a''
                (cm_heap (cm_run demo_KV_Map s1 demo_delete_cm) 0)))"
    by blast
  from T8 l(2) p(3,4)
  have e8: "\<exists>s1 s2 c. [Caller 0, Caller 0, Worker, Worker, Worker] = s1 @ s2
        \<and> ccm_abort (ccm_run demo_ccm_Map s1 demo_delete_ccm) = None
        \<and> ccm_worker (ccm_run demo_ccm_Map s1 demo_delete_ccm) = WServe (deleteRequest ''a'' c)
        \<and> receiver_of c (ccm_callers (ccm_run demo_ccm_Map s1 demo_delete_ccm)) = Some 0
        \<and> length (results (ccm_callers (ccm_run demo_ccm_Map s1 demo_delete_ccm) ! 0)) = 0
        \<and> results (ccm_callers (ccm_run demo_ccm_Map
             [Caller 0, Caller 0, Worker, Worker, Worker] demo_delete_ccm) ! 0) ! 0
            = R_pair
                (fst (fst (Map_Delete demo_ccm_Map ''a''
                   (ccm_heap (ccm_run demo_ccm_Map s1 demo_delete_ccm) 0))))
                (snd (fst (Map_Delete demo_ccm_Map ''a''
                   (ccm_heap (ccm_run demo_ccm_Map s1 demo_delete_ccm) 0))))"
    by blast
  note g1 = h1 [THEN conjunct1] h1 [THEN conjunct2, THEN conjunct1]
    h1 [THEN conjunct2, THEN conjunct2, THEN conjunct1]
    h1 [THEN conjunct2, THEN conjunct2, THEN conjunct2, THEN conjunct1]
    h1 [THEN conjunct2, THEN conjunct2, THEN conjunct2, THEN conjunct2, THEN conjunct1]
    h1 [THEN conjunct2, THEN conjunct2, THEN conjunct2, THEN conjunct2, THEN conjunct2]
  note c2 = conjunct2 [THEN conjunct2, THEN conjunct2, THEN conjunct2, THEN conjunct2]
  note g2 = h2 [THEN conjunct1] h2 [THEN conjunct2, THEN conjunct1]
    h2 [THEN conjunct2, THEN conjunct2, THEN conjunct1]
    h2 [THEN conjunct2, THEN conjunct2, THEN conjunct2, THEN conjunct1]
    h2 [THEN conjunct2, THEN conjunct2, THEN conjunct2, THEN conjunct2, THEN conjunct1]
    h2 [THEN c2, THEN conjunct1] h2 [THEN c2, THEN conjunct2, THEN conjunct1]
    h2 [THEN c2, THEN conjunct2, THEN conjunct2, THEN conjunct1]
    h2 [THEN c2, THEN conjunct2, THEN conjunct2, THEN conjunct2, THEN conjunct1]
    h2 [THEN c2, THEN conjunct2, THEN conjunct2, THEN conjunct2, THEN conjunct2]
  from g1 res1 g2 res2 p(1) l(1) p(2) e1 p(3) l(2) p(4) e2 wx x5 ay wy y6 e7 e8
  show ?thesis
    by (intro conjI)
qed

section \<open>A single caller sees the reference map\<close>

text \<open>
  C2. One caller issues a sequence of calls against a coordinator of either variant (any
  methods; in the uniform variant any but \<open>Close\<close>), and nobody else uses it. Under
  every schedule, the results the caller has received so far are an initial segment of
  the results the same calls give when made directly, in the same order, on the wrapped
  map. And the calls do return: under the schedule that lets the caller make and send
  and then the worker serve and reply, once per call, the caller ends with exactly the
  reference's results.
\<close>

theorem single_caller_matches_reference:
  "(ccm_Close \<notin> set P \<longrightarrow>
      (\<exists>rs rest. map results (ccm_callers (ccm_run M sched (NewChannelConcurrentMap st h [P]))) = [rs]
          \<and> fst (ccm_direct M P (h st)) = rs @ rest)
      \<and> map results (ccm_callers (ccm_run M
            (concat (replicate (length P) [Caller 0, Caller 0, Worker, Worker, Worker]))
            (NewChannelConcurrentMap st h [P])))
          = [fst (ccm_direct M P (h st))])
   \<and> (\<exists>rs rest. map results (cm_callers (cm_run N sched (NewConcurrentMap st h' [Q]))) = [rs]
          \<and> fst (cm_direct N st Q (h' st)) = rs @ rest)
   \<and> map results (cm_callers (cm_run N
            (concat (replicate (length Q) [Caller 0, Caller 0, Worker, Worker]))
            (NewConcurrentMap st h' [Q])))
          = [fst (cm_direct N st Q (h' st))]"
proof (intro conjI impI)
  assume nc: "ccm_Close \<notin> set P"
  then have "ccm_single_inv M P (h st) (ccm_run M sched (NewChannelConcurrentMap st h [P]))"
    by (intro ccm_single_run ccm_single_init)
  then show "\<exists>rs rest. map results (ccm_callers (ccm_run M sched (NewChannelConcurrentMap st h [P]))) = [rs]
          \<and> fst (ccm_direct M P (h st)) = rs @ rest"
    by (rule ccm_single_prefix)
  from nc ccm_single_complete
    [of "NewChannelConcurrentMap st h [P]" "\<lparr>todo = P, pc = Idle, results = []\<rparr>" P M]
  show "map results (ccm_callers (ccm_run M
            (concat (replicate (length P) [Caller 0, Caller 0, Worker, Worker, Worker]))
            (NewChannelConcurrentMap st h [P])))
          = [fst (ccm_direct M P (h st))]"
    by (simp add: NewChannelConcurrentMap_def make_chan_def)
next
  have "cm_single_inv N st Q (h' st) (cm_run N sched (NewConcurrentMap st h' [Q]))"
    by (intro cm_single_run cm_single_init)
  then show "\<exists>rs rest. map results (cm_callers (cm_run N sched (NewConcurrentMap st h' [Q]))) = [rs]
          \<and> fst (cm_direct N st Q (h' st)) = rs @ rest"
    by (rule cm_single_prefix)
  from cm_single_complete
    [of "NewConcurrentMap st h' [Q]" "\<lparr>todo = Q, pc = Idle, results = []\<rparr>" Q N]
  show "map results (cm_callers (cm_run N
            (concat (replicate (length Q) [Caller 0, Caller 0, Worker, Worker]))
            (NewConcurrentMap st h' [Q])))
          = [fst (cm_direct N st Q (h' st))]"
    by (simp add: NewConcurrentMap_def)
qed

theorem single_caller_matches_reference_witness:
  "ccm_Close \<notin> set demo_ccm_prog
   \<and> map results (ccm_callers (ccm_run demo_ccm_Map
        (concat (replicate (length demo_ccm_prog) [Caller 0, Caller 0, Worker, Worker, Worker]))
        (NewChannelConcurrentMap 0 (\<lambda>a. []) [demo_ccm_prog])))
      = [[R_pair 0 False, R_pair 0 False, R_pair 1 True, R_pair 1 True, R_pair 0 False, R_int 1]]
   \<and> map results (cm_callers (cm_run demo_KV_Map
        (concat (replicate (length demo_cm_prog) [Caller 0, Caller 0, Worker, Worker]))
        (NewConcurrentMap 0 (\<lambda>a. []) [demo_cm_prog])))
      = [[Ret_int 1, Ret_int 2, Ret_pair 1 True, Ret_int 1, Ret_pair 0 False, Ret_int 1]]"
proof -
  have nc: "ccm_Close \<notin> set demo_ccm_prog"
    by (simp add: demo_ccm_prog_def)
  have d1: "fst (ccm_direct demo_ccm_Map demo_ccm_prog [])
      = [R_pair 0 False, R_pair 0 False, R_pair 1 True, R_pair 1 True, R_pair 0 False, R_int 1]"
    by (simp add: demo_ccm_prog_def demo_ccm_Map_def basic_ccm_Map_def)
  have d2: "fst (cm_direct demo_KV_Map 0 demo_cm_prog [])
      = [Ret_int 1, Ret_int 2, Ret_pair 1 True, Ret_int 1, Ret_pair 0 False, Ret_int 1]"
    by (simp add: demo_cm_prog_def demo_KV_Map_def basic_KV_Map_def)
  note T = single_caller_matches_reference
    [of demo_ccm_prog demo_ccm_Map "[]" 0 "\<lambda>a. []" demo_KV_Map "\<lambda>a. []" demo_cm_prog]
  from T nc have r1: "map results (ccm_callers (ccm_run demo_ccm_Map
        (concat (replicate (length demo_ccm_prog) [Caller 0, Caller 0, Worker, Worker, Worker]))
        (NewChannelConcurrentMap 0 (\<lambda>a. []) [demo_ccm_prog])))
      = [fst (ccm_direct demo_ccm_Map demo_ccm_prog [])]"
    by blast
  from T have r2: "map results (cm_callers (cm_run demo_KV_Map
        (concat (replicate (length demo_cm_prog) [Caller 0, Caller 0, Worker, Worker]))
        (NewConcurrentMap 0 (\<lambda>a. []) [demo_cm_prog])))
      = [fst (cm_direct demo_KV_Map 0 demo_cm_prog [])]"
    by blast
  from nc show ?thesis unfolding r1 r2 d1 d2 by blast
qed

section \<open>The map reference held by the request-typed coordinator\<close>

text \<open>
  C9. A coordinator made by \<open>NewConcurrentMap(m)\<close>, with any callers running any
  programs under any schedule: its struct, and with it the \<open>storage\<close> field, stays what
  the constructor made it, so \<open>storage\<close> is the reference \<open>m\<close> throughout; and every
  \<open>UnderlyingMap()\<close> call that has returned, returned that reference \<open>m\<close>. Such a call
  does return: issued by an idle caller while the worker is at its \<open>select\<close> and served at
  once, it returns the reference in \<open>storage\<close> and leaves every map object as it was.
\<close>

theorem storage_reference_never_changes:
  "cm (cm_run M sched (NewConcurrentMap st h progs))
     = \<lparr>cm_storage = st, accessMapCh = 0, accessStorageCh = 1, clearCh = 2,
        containsCh = 3, deleteCh = 4, lenCh = 5, getCh = 6, setCh = 7\<rparr>
   \<and> cm_storage (cm (cm_run M sched (NewConcurrentMap st h progs))) = st
   \<and> (\<forall>i < length progs.
        \<forall>k < length (results (cm_callers (cm_run M sched (NewConcurrentMap st h progs)) ! i)).
          progs ! i ! k = cm_UnderlyingMap \<longrightarrow>
          results (cm_callers (cm_run M sched (NewConcurrentMap st h progs)) ! i) ! k = Ret_Map st)
   \<and> (cm_worker w = WSelect \<and> j < length (cm_callers w) \<and> pc (cm_callers w ! j) = Idle
        \<and> todo (cm_callers w ! j) = cm_UnderlyingMap # rest
        \<and> receiver_of (length (cm_made w)) (cm_callers w) = None \<longrightarrow>
      results (cm_callers (cm_run M [Caller j, Caller j, Worker, Worker] w) ! j)
          = results (cm_callers w ! j) @ [Ret_Map (cm_storage (cm w))]
        \<and> cm_heap (cm_run M [Caller j, Caller j, Worker, Worker] w) = cm_heap w)"
proof (intro conjI allI impI)
  show "cm (cm_run M sched (NewConcurrentMap st h progs))
     = \<lparr>cm_storage = st, accessMapCh = 0, accessStorageCh = 1, clearCh = 2,
        containsCh = 3, deleteCh = 4, lenCh = 5, getCh = 6, setCh = 7\<rparr>"
    by (simp add: cm_struct_run NewConcurrentMap_def)
  then show "cm_storage (cm (cm_run M sched (NewConcurrentMap st h progs))) = st"
    by simp
next
  fix i k
  let ?w = "cm_run M sched (NewConcurrentMap st h progs)"
  assume i: "i < length progs" and k: "k < length (results (cm_callers ?w ! i))"
    and u: "progs ! i ! k = cm_UnderlyingMap"
  have "cm_hist_inv M st progs ?w"
    by (intro cm_hist_run cm_hist_init)
  with i have "cm_caller_ok M st (cm_worker ?w) (progs ! i) (cm_callers ?w ! i)"
    by (simp add: cm_hist_inv_def)
  with k obtain m where "results (cm_callers ?w ! i) ! k = fst (cm_apply M st (progs ! i ! k) m)"
    by (auto simp: cm_caller_ok_def)
  with u show "results (cm_callers ?w ! i) ! k = Ret_Map st" by simp
next
  assume a: "cm_worker w = WSelect \<and> j < length (cm_callers w) \<and> pc (cm_callers w ! j) = Idle
        \<and> todo (cm_callers w ! j) = cm_UnderlyingMap # rest
        \<and> receiver_of (length (cm_made w)) (cm_callers w) = None"
  then show "results (cm_callers (cm_run M [Caller j, Caller j, Worker, Worker] w) ! j)
          = results (cm_callers w ! j) @ [Ret_Map (cm_storage (cm w))]"
    using cm_roundtrip_result(1) [of w j cm_UnderlyingMap rest M] by simp
  from a show "cm_heap (cm_run M [Caller j, Caller j, Worker, Worker] w) = cm_heap w"
    using cm_roundtrip_result(6) [of w j cm_UnderlyingMap rest M] by simp
qed

theorem storage_reference_never_changes_witness:
  "1 < length [[cm_Set ''a'' 1, cm_UnderlyingMap], [cm_UnderlyingMap :: (string, int) cm_call]]
   \<and> 0 < length (results (cm_callers (cm_run demo_KV_Map
        [Caller 0, Caller 1, Caller 0, Caller 1, Worker, Worker, Caller 1, Worker, Worker]
        demo_access_cm) ! 1))
   \<and> [[cm_Set ''a'' 1, cm_UnderlyingMap], [cm_UnderlyingMap :: (string, int) cm_call]] ! 1 ! 0
        = cm_UnderlyingMap
   \<and> results (cm_callers (cm_run demo_KV_Map
        [Caller 0, Caller 1, Caller 0, Caller 1, Worker, Worker, Caller 1, Worker, Worker]
        demo_access_cm) ! 1) ! 0 = Ret_Map 7
   \<and> cm_storage (cm (cm_run demo_KV_Map
        [Caller 0, Caller 1, Caller 0, Caller 1, Worker, Worker, Caller 1, Worker, Worker]
        demo_access_cm)) = 7
   \<and> (cm_worker demo_access_cm = WSelect \<and> 1 < length (cm_callers demo_access_cm)
        \<and> pc (cm_callers demo_access_cm ! 1) = Idle
        \<and> todo (cm_callers demo_access_cm ! 1) = cm_UnderlyingMap # []
        \<and> receiver_of (length (cm_made demo_access_cm)) (cm_callers demo_access_cm) = None)
   \<and> results (cm_callers (cm_run demo_KV_Map [Caller 1, Caller 1, Worker, Worker]
        demo_access_cm) ! 1) = results (cm_callers demo_access_cm ! 1) @ [Ret_Map 7]
   \<and> cm_heap (cm_run demo_KV_Map [Caller 1, Caller 1, Worker, Worker] demo_access_cm)
        = cm_heap demo_access_cm"
proof -
  let ?progs = "[[cm_Set ''a'' 1, cm_UnderlyingMap], [cm_UnderlyingMap :: (string, int) cm_call]]"
  let ?sched = "[Caller 0, Caller 1, Caller 0, Caller 1, Worker, Worker, Caller 1, Worker, Worker]"
  note T = storage_reference_never_changes
    [of demo_KV_Map ?sched 7 "\<lambda>a. []" ?progs, folded demo_access_cm_def]
  have h1: "1 < length ?progs" and h3: "?progs ! 1 ! 0 = cm_UnderlyingMap"
    by simp_all
  have h2: "0 < length (results (cm_callers (cm_run demo_KV_Map ?sched demo_access_cm) ! 1))"
    by (simp add: demo_access_cm_def cm_eval demo_KV_Map_def basic_KV_Map_def)
  from T h1 h2 h3
  have "results (cm_callers (cm_run demo_KV_Map ?sched demo_access_cm) ! 1) ! 0 = Ret_Map 7"
    by blast
  moreover from T have "cm_storage (cm (cm_run demo_KV_Map ?sched demo_access_cm)) = 7"
    by blast
  moreover have h4: "cm_worker demo_access_cm = WSelect \<and> 1 < length (cm_callers demo_access_cm)
        \<and> pc (cm_callers demo_access_cm ! 1) = Idle
        \<and> todo (cm_callers demo_access_cm ! 1) = cm_UnderlyingMap # []
        \<and> receiver_of (length (cm_made demo_access_cm)) (cm_callers demo_access_cm) = None"
    and h5: "cm_storage (cm demo_access_cm) = 7"
    by (simp_all add: demo_access_cm_def NewConcurrentMap_def)
  moreover from h4 h5 storage_reference_never_changes
    [of demo_KV_Map "[]" 7 "\<lambda>a. []" "[]" demo_access_cm 1 "[]"]
  have "results (cm_callers (cm_run demo_KV_Map [Caller 1, Caller 1, Worker, Worker]
        demo_access_cm) ! 1) = results (cm_callers demo_access_cm ! 1) @ [Ret_Map 7]
      \<and> cm_heap (cm_run demo_KV_Map [Caller 1, Caller 1, Worker, Worker] demo_access_cm)
        = cm_heap demo_access_cm"
    by metis
  ultimately show ?thesis using h1 h2 h3 by blast
qed

section \<open>One reply per request\<close>



section \<open>A request buffered when \<open>Close\<close> is called\<close>

text \<open>
  C10. The uniform-message worker is at its receive, one request sits in the buffer of
  the request channel with its sender waiting for the reply, and another caller calls
  \<open>Close()\<close>. Then the worker's next steps take that request off the closed channel,
  serve it on the map and hand the reply to the sender, whose call returns; only at its
  next receive does the worker see the close and return. And in every world the
  coordinator can reach: when the worker has returned, the buffer is empty and no caller
  is waiting for a reply, so no request that was sent has been dropped.
\<close>

theorem enqueued_request_served_before_return:
  "(ccm_abort w = None \<and> ccm_worker w = WSelect \<and> ch_buf (ccm_chan w) = [request]
      \<and> \<not> ch_closed (ccm_chan w)
      \<and> i < length (ccm_callers w) \<and> pc (ccm_callers w ! i) = Idle
      \<and> todo (ccm_callers w ! i) = ccm_Close # rest
      \<and> receiver_of r (ccm_callers w) = Some j \<and> todo (ccm_callers w ! j) = call # rest'
      \<and> ccm_dispatch M request (ccm_heap w (ccm_storage (ccm w))) = Inr (r, v, m') \<longrightarrow>
    ccm_worker (ccm_run M [Caller i, Worker, Worker, Worker, Worker] w) = WReturned
    \<and> ccm_callers (ccm_run M [Caller i, Worker, Worker, Worker, Worker] w) ! j
        = \<lparr>todo = rest', pc = Idle, results = results (ccm_callers w ! j) @ [ccm_return v]\<rparr>
    \<and> ccm_heap (ccm_run M [Caller i, Worker, Worker, Worker, Worker] w)
        = (ccm_heap w)(ccm_storage (ccm w) := m')
    \<and> ccm_trace (ccm_run M [Caller i, Worker, Worker, Worker, Worker] w)
        = ccm_trace w @ [Closed (Caller i) (ccm_requestCh (ccm w)), Dispatched r, Sent Worker r])
   \<and> (ccm_worker (ccm_run M sched (NewChannelConcurrentMap st h progs)) = WReturned \<longrightarrow>
        ch_buf (ccm_chan (ccm_run M sched (NewChannelConcurrentMap st h progs))) = []
        \<and> (\<forall>c \<in> set (ccm_callers (ccm_run M sched (NewChannelConcurrentMap st h progs))).
              \<forall>r. pc c \<noteq> Receiving r))"
proof (intro conjI impI)
  assume a: "ccm_abort w = None \<and> ccm_worker w = WSelect \<and> ch_buf (ccm_chan w) = [request]
      \<and> \<not> ch_closed (ccm_chan w)
      \<and> i < length (ccm_callers w) \<and> pc (ccm_callers w ! i) = Idle
      \<and> todo (ccm_callers w ! i) = ccm_Close # rest
      \<and> receiver_of r (ccm_callers w) = Some j \<and> todo (ccm_callers w ! j) = call # rest'
      \<and> ccm_dispatch M request (ccm_heap w (ccm_storage (ccm w))) = Inr (r, v, m')"
  note d = ccm_close_drain_result [of w request i rest r j call rest' M v m']
  from a show "ccm_worker (ccm_run M [Caller i, Worker, Worker, Worker, Worker] w) = WReturned"
    using d(1) by blast
  from a show "ccm_callers (ccm_run M [Caller i, Worker, Worker, Worker, Worker] w) ! j
        = \<lparr>todo = rest', pc = Idle, results = results (ccm_callers w ! j) @ [ccm_return v]\<rparr>"
    using d(2) by blast
  from a show "ccm_heap (ccm_run M [Caller i, Worker, Worker, Worker, Worker] w)
        = (ccm_heap w)(ccm_storage (ccm w) := m')"
    using d(3) by blast
  from a show "ccm_trace (ccm_run M [Caller i, Worker, Worker, Worker, Worker] w)
        = ccm_trace w @ [Closed (Caller i) (ccm_requestCh (ccm w)), Dispatched r, Sent Worker r]"
    using d(4) by blast
next
  assume "ccm_worker (ccm_run M sched (NewChannelConcurrentMap st h progs)) = WReturned"
  moreover have "ccm_count_inv (ccm_run M sched (NewChannelConcurrentMap st h progs))"
    by (simp add: ccm_count_run ccm_count_init)
  ultimately show "ch_buf (ccm_chan (ccm_run M sched (NewChannelConcurrentMap st h progs))) = []"
    and "\<forall>c \<in> set (ccm_callers (ccm_run M sched (NewChannelConcurrentMap st h progs))).
              \<forall>r. pc c \<noteq> Receiving r"
    using ccm_returned_none_waiting by blast+
qed

theorem enqueued_request_served_before_return_witness:
  "(ccm_abort (ccm_run demo_ccm_Map [Caller 0, Caller 0] demo_drain_world) = None
     \<and> ccm_worker (ccm_run demo_ccm_Map [Caller 0, Caller 0] demo_drain_world) = WSelect
     \<and> ch_buf (ccm_chan (ccm_run demo_ccm_Map [Caller 0, Caller 0] demo_drain_world))
          = [setRequest ''a'' 1 1]
     \<and> \<not> ch_closed (ccm_chan (ccm_run demo_ccm_Map [Caller 0, Caller 0] demo_drain_world))
     \<and> 1 < length (ccm_callers (ccm_run demo_ccm_Map [Caller 0, Caller 0] demo_drain_world))
     \<and> pc (ccm_callers (ccm_run demo_ccm_Map [Caller 0, Caller 0] demo_drain_world) ! 1) = Idle
     \<and> todo (ccm_callers (ccm_run demo_ccm_Map [Caller 0, Caller 0] demo_drain_world) ! 1)
          = ccm_Close # []
     \<and> receiver_of 1 (ccm_callers (ccm_run demo_ccm_Map [Caller 0, Caller 0] demo_drain_world))
          = Some 0
     \<and> todo (ccm_callers (ccm_run demo_ccm_Map [Caller 0, Caller 0] demo_drain_world) ! 0)
          = ccm_Set ''a'' 1 # []
     \<and> ccm_dispatch demo_ccm_Map (setRequest ''a'' 1 1)
          (ccm_heap (ccm_run demo_ccm_Map [Caller 0, Caller 0] demo_drain_world)
             (ccm_storage (ccm (ccm_run demo_ccm_Map [Caller 0, Caller 0] demo_drain_world))))
          = Inr (1, setResult 0 False, [(''a'', 1)]))
   \<and> ccm_worker (ccm_run demo_ccm_Map [Caller 1, Worker, Worker, Worker, Worker]
        (ccm_run demo_ccm_Map [Caller 0, Caller 0] demo_drain_world)) = WReturned
   \<and> ccm_callers (ccm_run demo_ccm_Map [Caller 1, Worker, Worker, Worker, Worker]
        (ccm_run demo_ccm_Map [Caller 0, Caller 0] demo_drain_world)) ! 0
        = \<lparr>todo = [], pc = Idle, results = [R_pair 0 False]\<rparr>
   \<and> ccm_worker (ccm_run demo_ccm_Map
        [Caller 0, Caller 0, Caller 1, Worker, Worker, Worker, Worker] demo_drain_world)
        = WReturned
   \<and> pc (ccm_callers (ccm_run demo_ccm_Map
        [Caller 0, Caller 0, Caller 1, Worker, Worker, Worker, Worker] demo_drain_world) ! 0)
        \<noteq> Receiving 1"
proof -
  let ?w = "ccm_run demo_ccm_Map [Caller 0, Caller 0] demo_drain_world"
  let ?sched = "[Caller 0, Caller 0, Caller 1, Worker, Worker, Worker, Worker]"
  have h: "ccm_abort ?w = None \<and> ccm_worker ?w = WSelect
     \<and> ch_buf (ccm_chan ?w) = [setRequest ''a'' 1 1] \<and> \<not> ch_closed (ccm_chan ?w)
     \<and> 1 < length (ccm_callers ?w) \<and> pc (ccm_callers ?w ! 1) = Idle
     \<and> todo (ccm_callers ?w ! 1) = ccm_Close # []
     \<and> receiver_of 1 (ccm_callers ?w) = Some 0
     \<and> todo (ccm_callers ?w ! 0) = ccm_Set ''a'' 1 # []
     \<and> ccm_dispatch demo_ccm_Map (setRequest ''a'' 1 1)
          (ccm_heap ?w (ccm_storage (ccm ?w))) = Inr (1, setResult 0 False, [(''a'', 1)])"
    by (simp add: demo_drain_world_def ccm_eval demo_ccm_Map_def basic_ccm_Map_def)
  have r0: "results (ccm_callers ?w ! 0) = []"
    by (simp add: demo_drain_world_def ccm_eval)
  have ret: "ccm_worker (ccm_run demo_ccm_Map ?sched demo_drain_world) = WReturned"
    by (simp add: demo_drain_world_def ccm_eval demo_ccm_Map_def basic_ccm_Map_def)
  note T = enqueued_request_served_before_return
    [where w = ?w and request = "setRequest ''a'' 1 1" and i = 1 and rest = "[]" and r = 1
       and j = 0 and call = "ccm_Set ''a'' 1" and rest' = "[]" and M = demo_ccm_Map
       and v = "setResult 0 False" and m' = "[(''a'', 1)]" and sched = ?sched and st = 0
       and h = "\<lambda>a. []" and progs = "[[ccm_Set ''a'' 1], [ccm_Close], [ccm_Get ''a'']]",
     folded demo_drain_world_def]
  from T h r0 have
    "ccm_worker (ccm_run demo_ccm_Map [Caller 1, Worker, Worker, Worker, Worker] ?w) = WReturned
   \<and> ccm_callers (ccm_run demo_ccm_Map [Caller 1, Worker, Worker, Worker, Worker] ?w) ! 0
        = \<lparr>todo = [], pc = Idle, results = [R_pair 0 False]\<rparr>"
    by simp
  moreover have "0 < length (ccm_callers (ccm_run demo_ccm_Map ?sched demo_drain_world))"
    by (simp add: demo_drain_world_def ccm_eval demo_ccm_Map_def basic_ccm_Map_def)
  then have "ccm_callers (ccm_run demo_ccm_Map ?sched demo_drain_world) ! 0
      \<in> set (ccm_callers (ccm_run demo_ccm_Map ?sched demo_drain_world))"
    by (rule nth_mem)
  with T ret have
    "pc (ccm_callers (ccm_run demo_ccm_Map ?sched demo_drain_world) ! 0) \<noteq> Receiving 1"
    by blast
  ultimately show ?thesis using h ret by blast
qed

end
